theory Spec2Isabelle
  imports Main "HOL-Library.AList"
begin

section \<open>The LRU cache of ENDLABEXAM2.py\<close>

text \<open>
  The cache of \<^verbatim>\<open>ENDLABEXAM2.py\<close> is a dictionary from keys to node objects together
  with a doubly linked list of the same nodes between two sentinel nodes. The nodes are
  shared between the dictionary and the list and are mutated in place, so the model keeps
  an explicit object store: a node reference is an address, the store maps addresses to
  node records, and a fresh object is allocated at the next unused address.

  Python integers are unbounded: all counters are \<open>int\<close>. A Python value of type
  \<^verbatim>\<open>Any\<close> is \<open>'v option\<close>, with \<open>None\<close> for Python's \<^verbatim>\<open>None\<close>; the result of
  \<^verbatim>\<open>get\<close> has the same type, as it has in the source (\<^verbatim>\<open>Optional[Any]\<close>).
  The clock \<^verbatim>\<open>time()\<close> is an input: every call that reads it takes the value read
  as an argument of an arbitrary type \<open>'t\<close>.
\<close>

subsection \<open>Errors\<close>

datatype error = ValueError string | AttributeError | KeyError string

definition and_then :: "error + 'a \<Rightarrow> ('a \<Rightarrow> error + 'b) \<Rightarrow> error + 'b" where
  "and_then m f = (case m of Inl e \<Rightarrow> Inl e | Inr x \<Rightarrow> f x)"

subsection \<open>Data\<close>

type_synonym addr = nat

record CacheMetrics =
  hits :: int
  misses :: int
  evictions :: int
  total_requests :: int
  cache_size :: int
  max_size :: int

text \<open>
  \<^verbatim>\<open>class LRUNode\<close>: the fields \<^verbatim>\<open>key, value, prev, next, timestamp\<close>. The links are
  \<^verbatim>\<open>None\<close> in a new node.
\<close>

record ('v, 't) LRUNode =
  node_key :: string
  node_value :: "'v option"
  node_prev :: "addr option"
  node_next :: "addr option"
  node_timestamp :: 't

definition LRUNode_new :: "string \<Rightarrow> 'v option \<Rightarrow> 't \<Rightarrow> ('v, 't) LRUNode" where
  "LRUNode_new k v t =
     \<lparr>node_key = k, node_value = v, node_prev = None, node_next = None, node_timestamp = t\<rparr>"

text \<open>
  \<^verbatim>\<open>class LRUCache\<close>: the fields \<^verbatim>\<open>capacity, cache, metrics, head, tail\<close>, and the object
  store they point into. The dictionary \<^verbatim>\<open>cache\<close> is an association list in insertion
  order, as a Python dictionary is; \<^verbatim>\<open>len(self.cache)\<close> is its length. Addresses from
  \<open>fresh\<close> on are not allocated.
\<close>

record ('v, 't) LRUCache =
  capacity :: int
  cache :: "(string \<times> addr) list"
  metrics :: CacheMetrics
  head :: addr
  tail :: addr
  heap :: "addr \<Rightarrow> ('v, 't) LRUNode"
  fresh :: addr

definition set_prev :: "(addr \<Rightarrow> ('v, 't) LRUNode) \<Rightarrow> addr \<Rightarrow> addr option \<Rightarrow> addr \<Rightarrow> ('v, 't) LRUNode" where
  "set_prev h a p = h(a := (h a)\<lparr>node_prev := p\<rparr>)"

definition set_next :: "(addr \<Rightarrow> ('v, 't) LRUNode) \<Rightarrow> addr \<Rightarrow> addr option \<Rightarrow> addr \<Rightarrow> ('v, 't) LRUNode" where
  "set_next h a n = h(a := (h a)\<lparr>node_next := n\<rparr>)"

definition set_value :: "(addr \<Rightarrow> ('v, 't) LRUNode) \<Rightarrow> addr \<Rightarrow> 'v option \<Rightarrow> addr \<Rightarrow> ('v, 't) LRUNode" where
  "set_value h a v = h(a := (h a)\<lparr>node_value := v\<rparr>)"

definition set_timestamp :: "(addr \<Rightarrow> ('v, 't) LRUNode) \<Rightarrow> addr \<Rightarrow> 't \<Rightarrow> addr \<Rightarrow> ('v, 't) LRUNode" where
  "set_timestamp h a t = h(a := (h a)\<lparr>node_timestamp := t\<rparr>)"

text \<open>\<^verbatim>\<open>del d[k]\<close> raises \<^verbatim>\<open>KeyError\<close> when the key is missing.\<close>

definition dict_del :: "string \<Rightarrow> (string \<times> addr) list \<Rightarrow> error + (string \<times> addr) list" where
  "dict_del k d = (if map_of d k = None then Inl (KeyError k) else Inr (AList.delete k d))"

text \<open>
  The constructor call \<^verbatim>\<open>LRUNode(key, value)\<close>: the new object takes the next unused
  address; \<open>t\<close> is the clock reading of the constructor.
\<close>

definition new_node :: "('v, 't) LRUCache \<Rightarrow> string \<Rightarrow> 'v option \<Rightarrow> 't \<Rightarrow> addr \<times> ('v, 't) LRUCache" where
  "new_node s k v t =
     (fresh s, s\<lparr>heap := (heap s)(fresh s := LRUNode_new k v t), fresh := Suc (fresh s)\<rparr>)"

subsection \<open>Construction\<close>

text \<open>
  \<^verbatim>\<open>LRUCache.__init__\<close>. The two sentinels are the first two objects allocated; \<open>th\<close> and
  \<open>tt\<close> are the clock readings of their constructors. The store is a total function, so
  the cells that are not allocated hold a blank node as well; \<open>new_node\<close> overwrites a
  cell when it allocates it.
\<close>

definition init :: "int \<Rightarrow> 't \<Rightarrow> 't \<Rightarrow> error + ('v, 't) LRUCache" where
  "init c th tt =
     (if c \<le> 0 then Inl (ValueError ''Capacity must be greater than 0'')
      else
        let h0 = (\<lambda>_. LRUNode_new [] None tt);
            h1 = h0(0 := LRUNode_new [] None th);
            h2 = h1(1 := LRUNode_new [] None tt);
            h3 = set_next h2 0 (Some 1);
            h4 = set_prev h3 1 (Some 0)
        in Inr \<lparr>capacity = c, cache = [],
                metrics = \<lparr>hits = 0, misses = 0, evictions = 0, total_requests = 0,
                            cache_size = 0, max_size = c\<rparr>,
                head = 0, tail = 1, heap = h4, fresh = 2\<rparr>)"

subsection \<open>The linked list\<close>

text \<open>
  \<^verbatim>\<open>_add_node\<close>. The right-hand side \<^verbatim>\<open>self.head, self.head.next\<close> is read before
  \<^verbatim>\<open>node.prev\<close> and \<^verbatim>\<open>node.next\<close> are written; \<^verbatim>\<open>self.head.next.prev = node\<close> reads
  \<^verbatim>\<open>self.head.next\<close> again and fails on \<^verbatim>\<open>None\<close>.
\<close>

definition add_node :: "('v, 't) LRUCache \<Rightarrow> addr \<Rightarrow> error + ('v, 't) LRUCache" where
  "add_node s node =
     (let hn = node_next (heap s (head s));
          h1 = set_prev (heap s) node (Some (head s));
          h2 = set_next h1 node hn
      in (case node_next (h2 (head s)) of
            None \<Rightarrow> Inl AttributeError
          | Some n \<Rightarrow>
              (let h3 = set_prev h2 n (Some node);
                   h4 = set_next h3 (head s) (Some node)
               in Inr (s\<lparr>heap := h4\<rparr>))))"

text \<open>
  \<^verbatim>\<open>_remove_node\<close>: \<^verbatim>\<open>node.prev.next, node.next.prev = node.next, node.prev\<close>. Both
  right-hand sides are read first; then \<^verbatim>\<open>node.prev\<close> is read and its \<^verbatim>\<open>next\<close> written,
  then \<^verbatim>\<open>node.next\<close> is read (after the first write) and its \<^verbatim>\<open>prev\<close> written.
\<close>

definition remove_node :: "('v, 't) LRUCache \<Rightarrow> addr \<Rightarrow> error + ('v, 't) LRUCache" where
  "remove_node s node =
     (let n = node_next (heap s node);
          p = node_prev (heap s node)
      in (case node_prev (heap s node) of
            None \<Rightarrow> Inl AttributeError
          | Some pa \<Rightarrow>
              (let h1 = set_next (heap s) pa n
               in (case node_next (h1 node) of
                     None \<Rightarrow> Inl AttributeError
                   | Some na \<Rightarrow> Inr (s\<lparr>heap := set_prev h1 na p\<rparr>)))))"

definition move_to_head :: "('v, 't) LRUCache \<Rightarrow> addr \<Rightarrow> error + ('v, 't) LRUCache" where
  "move_to_head s node = and_then (remove_node s node) (\<lambda>s1. add_node s1 node)"

text \<open>
  \<^verbatim>\<open>_pop_tail\<close>. \<^verbatim>\<open>last == self.head\<close> compares object identities (the class defines no
  \<^verbatim>\<open>__eq__\<close>); a \<^verbatim>\<open>None\<close> in \<^verbatim>\<open>self.tail.prev\<close> is not the head, and \<^verbatim>\<open>_remove_node\<close>
  then fails on it.
\<close>

definition pop_tail :: "('v, 't) LRUCache \<Rightarrow> error + (addr option \<times> ('v, 't) LRUCache)" where
  "pop_tail s =
     (let last = node_prev (heap s (tail s))
      in if last = Some (head s) then Inr (None, s)
         else (case last of
                 None \<Rightarrow> Inl AttributeError
               | Some l \<Rightarrow> and_then (remove_node s l) (\<lambda>s1. Inr (Some l, s1))))"

subsection \<open>The operations\<close>

definition get :: "('v, 't) LRUCache \<Rightarrow> string \<Rightarrow> error + ('v option \<times> ('v, 't) LRUCache)" where
  "get s k =
     (let s1 = s\<lparr>metrics := (metrics s)\<lparr>total_requests := total_requests (metrics s) + 1\<rparr>\<rparr>
      in (case map_of (cache s1) k of
            None \<Rightarrow> Inr (None, s1\<lparr>metrics := (metrics s1)\<lparr>misses := misses (metrics s1) + 1\<rparr>\<rparr>)
          | Some node \<Rightarrow>
              and_then (move_to_head s1 node) (\<lambda>s2.
                let s3 = s2\<lparr>metrics := (metrics s2)\<lparr>hits := hits (metrics s2) + 1\<rparr>\<rparr>
                in Inr (node_value (heap s3 node), s3))))"

text \<open>
  The eviction of \<^verbatim>\<open>put\<close> (lines 67 to 71): \<^verbatim>\<open>if tail:\<close> holds for every node object,
  as the class defines neither \<^verbatim>\<open>__bool__\<close> nor \<^verbatim>\<open>__len__\<close>.
\<close>

definition put_evict :: "('v, 't) LRUCache \<Rightarrow> error + ('v, 't) LRUCache" where
  "put_evict s =
     (if int (length (cache s)) \<ge> capacity s then
        and_then (pop_tail s) (\<lambda>(tl, s1).
          case tl of
            None \<Rightarrow> Inr s1
          | Some a \<Rightarrow>
              and_then (dict_del (node_key (heap s1 a)) (cache s1)) (\<lambda>d.
                Inr (s1\<lparr>cache := d,
                        metrics := (metrics s1)\<lparr>evictions := evictions (metrics s1) + 1\<rparr>\<rparr>)))
      else Inr s)"

text \<open>
  \<^verbatim>\<open>put\<close>; \<open>t\<close> is the clock reading, taken by the constructor of the new node or by the
  update of an existing one.
\<close>

definition put :: "('v, 't) LRUCache \<Rightarrow> string \<Rightarrow> 'v option \<Rightarrow> 't \<Rightarrow> error + (bool \<times> ('v, 't) LRUCache)" where
  "put s k v t =
     (case map_of (cache s) k of
        None \<Rightarrow>
          (case new_node s k v t of (node, s1) \<Rightarrow>
             and_then (put_evict s1) (\<lambda>s2.
               let s3 = s2\<lparr>cache := AList.update k node (cache s2)\<rparr>
               in and_then (add_node s3 node) (\<lambda>s4.
                    Inr (True, s4\<lparr>metrics := (metrics s4)\<lparr>cache_size := int (length (cache s4))\<rparr>\<rparr>))))
      | Some node \<Rightarrow>
          (let h1 = set_value (heap s) node v;
               h2 = set_timestamp h1 node t
           in and_then (move_to_head (s\<lparr>heap := h2\<rparr>) node) (\<lambda>s1. Inr (False, s1))))"

definition delete :: "('v, 't) LRUCache \<Rightarrow> string \<Rightarrow> error + (bool \<times> ('v, 't) LRUCache)" where
  "delete s k =
     (case map_of (cache s) k of
        None \<Rightarrow> Inr (False, s)
      | Some node \<Rightarrow>
          and_then (remove_node s node) (\<lambda>s1.
            and_then (dict_del k (cache s1)) (\<lambda>d.
              Inr (True, s1\<lparr>cache := d,
                            metrics := (metrics s1)\<lparr>cache_size := int (length d)\<rparr>\<rparr>))))"

definition clear :: "('v, 't) LRUCache \<Rightarrow> ('v, 't) LRUCache" where
  "clear s =
     (let h1 = set_next (heap s) (head s) (Some (tail s));
          h2 = set_prev h1 (tail s) (Some (head s))
      in s\<lparr>cache := [], heap := h2, metrics := (metrics s)\<lparr>cache_size := 0\<rparr>\<rparr>)"

definition size_lru :: "('v, 't) LRUCache \<Rightarrow> int" where
  "size_lru s = int (length (cache s))"

text \<open>
  \<^verbatim>\<open>get_metrics\<close> returns the metrics object itself; the model returns its value at the
  time of the call. The derived rates \<^verbatim>\<open>hit_rate\<close> and \<^verbatim>\<open>miss_rate\<close> are floating point
  and are left out.
\<close>

definition get_metrics :: "('v, 't) LRUCache \<Rightarrow> CacheMetrics \<times> ('v, 't) LRUCache" where
  "get_metrics s =
     (let s1 = s\<lparr>metrics := (metrics s)\<lparr>cache_size := int (length (cache s))\<rparr>\<rparr>
      in (metrics s1, s1))"

subsection \<open>Sequences of calls\<close>

text \<open>
  A call of the public interface, with the clock reading of the calls that read the clock,
  and what it returns. A session constructs a cache and runs a list of calls on it; it
  stops at the first exception.
\<close>

datatype ('v, 't) call =
    Get string
  | Put string "'v option" 't
  | Delete string
  | Clear
  | Size
  | GetMetrics

datatype 'v result =
    Value "'v option"
  | Flag bool
  | Nothing
  | Count int
  | Snapshot CacheMetrics

fun exec :: "('v, 't) LRUCache \<Rightarrow> ('v, 't) call \<Rightarrow> error + ('v result \<times> ('v, 't) LRUCache)" where
  "exec s (Get k) = and_then (get s k) (\<lambda>(r, s1). Inr (Value r, s1))"
| "exec s (Put k v t) = and_then (put s k v t) (\<lambda>(b, s1). Inr (Flag b, s1))"
| "exec s (Delete k) = and_then (delete s k) (\<lambda>(b, s1). Inr (Flag b, s1))"
| "exec s Clear = Inr (Nothing, clear s)"
| "exec s Size = Inr (Count (size_lru s), s)"
| "exec s GetMetrics = (case get_metrics s of (m, s1) \<Rightarrow> Inr (Snapshot m, s1))"

fun run :: "('v, 't) LRUCache \<Rightarrow> ('v, 't) call list \<Rightarrow> error + ('v result list \<times> ('v, 't) LRUCache)" where
  "run s [] = Inr ([], s)"
| "run s (c # cs) =
     and_then (exec s c) (\<lambda>(r, s1).
       and_then (run s1 cs) (\<lambda>(rs, s2). Inr (r # rs, s2)))"

definition session :: "int \<Rightarrow> 't \<Rightarrow> 't \<Rightarrow> ('v, 't) call list \<Rightarrow> error + ('v result list \<times> ('v, 't) LRUCache)" where
  "session c th tt cs = and_then (init c th tt) (\<lambda>s. run s cs)"

subsection \<open>Reading the recency list\<close>

text \<open>
  The nodes of the list from most to least recently used: follow \<^verbatim>\<open>next\<close> from the head
  sentinel until the tail sentinel. The walk gives up (\<open>None\<close>) on a \<^verbatim>\<open>None\<close> link and
  when its fuel is spent; the number of allocated objects is fuel enough for every list
  without a cycle.
\<close>

fun follow :: "(addr \<Rightarrow> ('v, 't) LRUNode) \<Rightarrow> addr \<Rightarrow> nat \<Rightarrow> addr option \<Rightarrow> addr list option" where
  "follow h stop 0 x = None"
| "follow h stop (Suc n) None = None"
| "follow h stop (Suc n) (Some a) =
     (if a = stop then Some []
      else map_option ((#) a) (follow h stop n (node_next (h a))))"

definition recency :: "('v, 't) LRUCache \<Rightarrow> addr list option" where
  "recency s = follow (heap s) (tail s) (fresh s) (node_next (heap s (head s)))"

text \<open>The keys and values of the list, in the same order.\<close>

definition entries :: "(addr \<Rightarrow> ('v, 't) LRUNode) \<Rightarrow> addr list \<Rightarrow> (string \<times> 'v option) list" where
  "entries h ns = map (\<lambda>a. (node_key (h a), node_value (h a))) ns"

definition recency_entries :: "('v, 't) LRUCache \<Rightarrow> (string \<times> 'v option) list option" where
  "recency_entries s = map_option (entries (heap s)) (recency s)"

subsection \<open>The invariant\<close>

text \<open>
  \<open>links h p ns t\<close>: in the store \<open>h\<close> the nodes \<open>ns\<close> are doubly linked, in this
  order, between \<open>p\<close> and \<open>t\<close>.
\<close>

fun links :: "(addr \<Rightarrow> ('v, 't) LRUNode) \<Rightarrow> addr \<Rightarrow> addr list \<Rightarrow> addr \<Rightarrow> bool" where
  "links h p [] t \<longleftrightarrow> node_next (h p) = Some t \<and> node_prev (h t) = Some p"
| "links h p (a # as) t \<longleftrightarrow>
     node_next (h p) = Some a \<and> node_prev (h a) = Some p \<and> links h a as t"

text \<open>
  \<open>shape s ns\<close>: the structure of the cache \<open>s\<close> is well formed and \<open>ns\<close> is its
  recency list. The list is doubly linked between the sentinels and has no repetition,
  the dictionary maps each key to one node of the list and every node of the list is the
  image of the key it stores, and there are at most \<open>capacity\<close> entries.
\<close>

definition shape :: "('v, 't) LRUCache \<Rightarrow> addr list \<Rightarrow> bool" where
  "shape s ns \<longleftrightarrow>
     0 < capacity s \<and>
     int (length ns) \<le> capacity s \<and>
     head s \<noteq> tail s \<and> head s \<notin> set ns \<and> tail s \<notin> set ns \<and> distinct ns \<and>
     head s < fresh s \<and> tail s < fresh s \<and> (\<forall>a \<in> set ns. a < fresh s) \<and>
     links (heap s) (head s) ns (tail s) \<and>
     distinct (map fst (cache s)) \<and>
     distinct (map snd (cache s)) \<and>
     set (map snd (cache s)) = set ns \<and>
     (\<forall>e \<in> set (cache s). node_key (heap s (snd e)) = fst e)"

text \<open>\<open>counters s\<close>: the counters of the metrics agree with each other and with the cache.\<close>

definition counters :: "('v, 't) LRUCache \<Rightarrow> bool" where
  "counters s \<longleftrightarrow>
     max_size (metrics s) = capacity s \<and>
     cache_size (metrics s) = int (length (cache s)) \<and>
     hits (metrics s) + misses (metrics s) = total_requests (metrics s)"

definition wf :: "('v, 't) LRUCache \<Rightarrow> addr list \<Rightarrow> bool" where
  "wf s ns \<longleftrightarrow> shape s ns \<and> counters s"

text \<open>Two stores hold the same key and the same value at every address.\<close>

definition same_payload :: "(addr \<Rightarrow> ('v, 't) LRUNode) \<Rightarrow> (addr \<Rightarrow> ('v, 't) LRUNode) \<Rightarrow> bool" where
  "same_payload h h' \<longleftrightarrow> (\<forall>x. node_key (h' x) = node_key (h x) \<and> node_value (h' x) = node_value (h x))"

text \<open>The three counters that count requests.\<close>

definition request_counters :: "CacheMetrics \<Rightarrow> int \<times> int \<times> int" where
  "request_counters m = (hits m, misses m, total_requests m)"

text \<open>
  \<open>holds s es\<close>: the cache \<open>s\<close> is well formed and its entries, from most to least
  recently used, are \<open>es\<close>.
\<close>

definition holds :: "('v, 't) LRUCache \<Rightarrow> (string \<times> 'v option) list \<Rightarrow> bool" where
  "holds s es \<longleftrightarrow> (\<exists>ns. wf s ns \<and> entries (heap s) ns = es)"

subsection \<open>The states inside put\<close>

text \<open>
  \<open>put_trace\<close> is \<^verbatim>\<open>put\<close> again, returning the state after each statement of its body
  that changes the state, in order; \<open>evict_trace\<close> does the same for the eviction. The last
  state of the trace is the state in which \<^verbatim>\<open>put\<close> returns.
\<close>

definition evict_trace :: "('v, 't) LRUCache \<Rightarrow> error + ('v, 't) LRUCache list" where
  "evict_trace s =
     (if int (length (cache s)) \<ge> capacity s then
        and_then (pop_tail s) (\<lambda>(tl, s1).
          case tl of
            None \<Rightarrow> Inr [s1]
          | Some a \<Rightarrow>
              and_then (dict_del (node_key (heap s1 a)) (cache s1)) (\<lambda>d.
                let s2 = s1\<lparr>cache := d\<rparr>;
                    s3 = s2\<lparr>metrics := (metrics s2)\<lparr>evictions := evictions (metrics s2) + 1\<rparr>\<rparr>
                in Inr [s1, s2, s3]))
      else Inr [])"

definition put_trace :: "('v, 't) LRUCache \<Rightarrow> string \<Rightarrow> 'v option \<Rightarrow> 't \<Rightarrow> error + ('v, 't) LRUCache list" where
  "put_trace s k v t =
     (case map_of (cache s) k of
        None \<Rightarrow>
          (case new_node s k v t of (node, s1) \<Rightarrow>
             and_then (evict_trace s1) (\<lambda>tr.
               let s2 = last (s1 # tr);
                   s3 = s2\<lparr>cache := AList.update k node (cache s2)\<rparr>
               in and_then (add_node s3 node) (\<lambda>s4.
                    Inr (s1 # tr @ [s3, s4,
                           s4\<lparr>metrics := (metrics s4)\<lparr>cache_size := int (length (cache s4))\<rparr>\<rparr>]))))
      | Some node \<Rightarrow>
          (let s1 = s\<lparr>heap := set_value (heap s) node v\<rparr>;
               s2 = s1\<lparr>heap := set_timestamp (heap s1) node t\<rparr>
           in and_then (move_to_head s2 node) (\<lambda>s3. Inr [s1, s2, s3])))"

subsection \<open>Forgetting the timestamps\<close>

text \<open>
  A node, a store, a cache and a call without their clock readings: every timestamp is
  replaced by the one value of type \<open>unit\<close>.
\<close>

definition untime_node :: "('v, 't) LRUNode \<Rightarrow> ('v, unit) LRUNode" where
  "untime_node n =
     \<lparr>node_key = node_key n, node_value = node_value n, node_prev = node_prev n,
      node_next = node_next n, node_timestamp = ()\<rparr>"

definition untime_heap :: "(addr \<Rightarrow> ('v, 't) LRUNode) \<Rightarrow> addr \<Rightarrow> ('v, unit) LRUNode" where
  "untime_heap h = (\<lambda>a. untime_node (h a))"

definition untime :: "('v, 't) LRUCache \<Rightarrow> ('v, unit) LRUCache" where
  "untime s =
     \<lparr>capacity = capacity s, cache = cache s, metrics = metrics s, head = head s,
      tail = tail s, heap = untime_heap (heap s), fresh = fresh s\<rparr>"

fun untime_call :: "('v, 't) call \<Rightarrow> ('v, unit) call" where
  "untime_call (Get k) = Get k"
| "untime_call (Put k v t) = Put k v ()"
| "untime_call (Delete k) = Delete k"
| "untime_call Clear = Clear"
| "untime_call Size = Size"
| "untime_call GetMetrics = GetMetrics"

section \<open>The list in the store\<close>

lemma and_then_Inr [simp]: "and_then (Inr x) f = f x"
  by (simp add: and_then_def)

lemma and_then_Inl [simp]: "and_then (Inl e) f = Inl e"
  by (simp add: and_then_def)

lemma set_prev_simps [simp]:
  "node_prev (set_prev h a p x) = (if x = a then p else node_prev (h x))"
  "node_next (set_prev h a p x) = node_next (h x)"
  "node_key (set_prev h a p x) = node_key (h x)"
  "node_value (set_prev h a p x) = node_value (h x)"
  "node_timestamp (set_prev h a p x) = node_timestamp (h x)"
  by (simp_all add: set_prev_def)

lemma set_next_simps [simp]:
  "node_next (set_next h a n x) = (if x = a then n else node_next (h x))"
  "node_prev (set_next h a n x) = node_prev (h x)"
  "node_key (set_next h a n x) = node_key (h x)"
  "node_value (set_next h a n x) = node_value (h x)"
  "node_timestamp (set_next h a n x) = node_timestamp (h x)"
  by (simp_all add: set_next_def)

lemma set_value_simps [simp]:
  "node_value (set_value h a v x) = (if x = a then v else node_value (h x))"
  "node_prev (set_value h a v x) = node_prev (h x)"
  "node_next (set_value h a v x) = node_next (h x)"
  "node_key (set_value h a v x) = node_key (h x)"
  "node_timestamp (set_value h a v x) = node_timestamp (h x)"
  by (simp_all add: set_value_def)

lemma set_timestamp_simps [simp]:
  "node_timestamp (set_timestamp h a t x) = (if x = a then t else node_timestamp (h x))"
  "node_prev (set_timestamp h a t x) = node_prev (h x)"
  "node_next (set_timestamp h a t x) = node_next (h x)"
  "node_key (set_timestamp h a t x) = node_key (h x)"
  "node_value (set_timestamp h a t x) = node_value (h x)"
  by (simp_all add: set_timestamp_def)

lemma links_append: "links h p (xs @ a # ys) t \<longleftrightarrow> links h p xs a \<and> links h a ys t"
  by (induction xs arbitrary: p) auto

lemma links_frame:
  "\<forall>x \<in> set (p # ns). node_next (h' x) = node_next (h x) \<Longrightarrow>
   \<forall>x \<in> set (ns @ [t]). node_prev (h' x) = node_prev (h x) \<Longrightarrow>
   links h' p ns t = links h p ns t"
  by (induction ns arbitrary: p) auto

lemma links_last:
  "links h p xs a \<Longrightarrow>
   node_prev (h a) = Some (last (p # xs)) \<and> node_next (h (last (p # xs))) = Some a"
  by (induction xs arbitrary: p) auto

lemma links_first:
  "links h a ys t \<Longrightarrow>
   node_next (h a) = Some (hd (ys @ [t])) \<and> node_prev (h (hd (ys @ [t]))) = Some a"
  by (cases ys) auto

lemma links_unlink:
  "links h p xs a \<Longrightarrow> links h a ys t \<Longrightarrow> distinct (p # xs @ a # ys @ [t]) \<Longrightarrow>
   links (set_prev (set_next h (last (p # xs)) (Some (hd (ys @ [t]))))
            (hd (ys @ [t])) (Some (last (p # xs)))) p (xs @ ys) t"
proof (induction xs arbitrary: p)
  case Nil
  show ?case
  proof (cases ys)
    case Nil
    then show ?thesis by simp
  next
    case (Cons y ys')
    with Nil.prems have "links h y ys' t" by simp
    moreover have "links (set_prev (set_next h p (Some y)) y (Some p)) y ys' t = links h y ys' t"
      using Nil.prems Cons by (intro links_frame) auto
    ultimately show ?thesis using Cons by simp
  qed
next
  case (Cons x xs')
  from Cons.prems have "links h x xs' a" by simp
  from Cons.IH [OF this Cons.prems(2)] Cons.prems
  show ?case by (cases ys) auto
qed

lemma follow_links:
  "links h p ns t \<Longrightarrow> t \<notin> set ns \<Longrightarrow> length ns < n \<Longrightarrow> follow h t n (node_next (h p)) = Some ns"
proof (induction ns arbitrary: p n)
  case Nil then show ?case by (cases n) auto
next
  case (Cons a as) then show ?case by (cases n) auto
qed


lemma remove_node_links:
  assumes "links (heap s) p ns t" and "distinct (p # ns @ [t])" and "a \<in> set ns"
  shows "\<exists>h'. remove_node s a = Inr (s\<lparr>heap := h'\<rparr>) \<and> links h' p (remove1 a ns) t \<and>
              same_payload (heap s) h'"
proof -
  from assms(3) obtain xs ys where ns: "ns = xs @ a # ys" and nxs: "a \<notin> set xs"
    by (auto dest: split_list_first)
  from assms(1) ns have l1: "links (heap s) p xs a" and l2: "links (heap s) a ys t"
    by (simp_all add: links_append)
  from assms(2) ns have d: "distinct (p # xs @ a # ys @ [t])" by simp
  let ?pa = "last (p # xs)" and ?na = "hd (ys @ [t])"
  have pa: "node_prev (heap s a) = Some ?pa" using links_last [OF l1] by simp
  have na: "node_next (heap s a) = Some ?na" using links_first [OF l2] by simp
  have "a \<noteq> ?pa" using d by (cases xs rule: rev_cases) auto
  then have rm: "remove_node s a = Inr (s\<lparr>heap := set_prev (set_next (heap s) ?pa (Some ?na)) ?na (Some ?pa)\<rparr>)"
    using pa na by (simp add: remove_node_def Let_def del: last.simps)
  have r1: "remove1 a ns = xs @ ys" using ns nxs by (simp add: remove1_append)
  show ?thesis
    using rm links_unlink [OF l1 l2 d] r1 by (auto simp: same_payload_def simp del: last.simps)
qed

lemma add_node_links:
  assumes "links (heap s) (head s) ns (tail s)" and "distinct (head s # ns @ [tail s])"
    and "a \<notin> set (head s # ns @ [tail s])"
  shows "\<exists>h'. add_node s a = Inr (s\<lparr>heap := h'\<rparr>) \<and> links h' (head s) (a # ns) (tail s) \<and>
              same_payload (heap s) h'"
proof -
  let ?n = "hd (ns @ [tail s])"
  have n: "node_next (heap s (head s)) = Some ?n" and p: "node_prev (heap s ?n) = Some (head s)"
    using links_first [OF assms(1)] by simp_all
  let ?h = "set_next (set_prev (set_next (set_prev (heap s) a (Some (head s))) a (Some ?n)) ?n (Some a))
              (head s) (Some a)"
  have ad: "add_node s a = Inr (s\<lparr>heap := ?h\<rparr>)"
    using n assms(3) by (simp add: add_node_def Let_def)
  have "links ?h (head s) (a # ns) (tail s)"
  proof (cases ns)
    case Nil
    then show ?thesis using assms by auto
  next
    case (Cons y ys)
    with assms(1) have "links (heap s) y ys (tail s)" by simp
    moreover have "links ?h y ys (tail s) = links (heap s) y ys (tail s)"
      using assms(2,3) Cons by (intro links_frame) auto
    ultimately show ?thesis using Cons assms by auto
  qed
  then show ?thesis using ad by (auto simp: same_payload_def)
qed

lemma remove1_last: "distinct ns \<Longrightarrow> ns \<noteq> [] \<Longrightarrow> remove1 (last ns) ns = butlast ns"
  by (induction ns) auto

lemma pop_tail_links:
  assumes "links (heap s) (head s) ns (tail s)" and "distinct (head s # ns @ [tail s])"
    and "ns \<noteq> []"
  shows "\<exists>h'. pop_tail s = Inr (Some (last ns), s\<lparr>heap := h'\<rparr>) \<and>
              links h' (head s) (butlast ns) (tail s) \<and> same_payload (heap s) h'"
proof -
  have "node_prev (heap s (tail s)) = Some (last ns)"
    using links_last [OF assms(1)] assms(3) by simp
  moreover have "last ns \<in> set ns" using assms(3) by simp
  then have "last ns \<noteq> head s" using assms(2) by auto
  moreover have "remove1 (last ns) ns = butlast ns"
    using assms(2,3) by (simp add: remove1_last)
  ultimately show ?thesis
    using remove_node_links [OF assms(1,2), of "last ns"] assms(3) \<open>last ns \<noteq> head s\<close>
    by (auto simp: pop_tail_def Let_def)
qed

lemma pop_tail_empty:
  assumes "links (heap s) (head s) [] (tail s)"
  shows "pop_tail s = Inr (None, s)"
  using assms by (simp add: pop_tail_def)

lemma move_to_head_links:
  assumes "links (heap s) (head s) ns (tail s)" and "distinct (head s # ns @ [tail s])"
    and "a \<in> set ns"
  shows "\<exists>h'. move_to_head s a = Inr (s\<lparr>heap := h'\<rparr>) \<and>
              links h' (head s) (a # remove1 a ns) (tail s) \<and> same_payload (heap s) h'"
proof -
  from remove_node_links [OF assms] obtain h1 where
    rm: "remove_node s a = Inr (s\<lparr>heap := h1\<rparr>)" and
    l1: "links h1 (head s) (remove1 a ns) (tail s)" and p1: "same_payload (heap s) h1"
    by blast
  let ?s1 = "s\<lparr>heap := h1\<rparr>"
  have d1: "distinct (head ?s1 # remove1 a ns @ [tail ?s1])"
    using assms(2) by (auto dest: notin_set_remove1)
  have n1: "a \<notin> set (head ?s1 # remove1 a ns @ [tail ?s1])"
    using assms(2,3) by auto
  from add_node_links [of ?s1 "remove1 a ns" a] l1 d1 n1 obtain h2 where
    "add_node ?s1 a = Inr (?s1\<lparr>heap := h2\<rparr>)" and
    "links h2 (head s) (a # remove1 a ns) (tail s)" and "same_payload h1 h2"
    by auto
  then show ?thesis using rm p1 by (auto simp: move_to_head_def same_payload_def)
qed

subsection \<open>Consequences of the invariant\<close>

lemma shape_lookup:
  assumes "shape s ns" and "map_of (cache s) k = Some a"
  shows "a \<in> set ns" and "node_key (heap s a) = k"
proof -
  from assms(2) have m: "(k, a) \<in> set (cache s)" by (rule map_of_SomeD)
  then have "snd (k, a) \<in> snd ` set (cache s)" by (rule imageI)
  moreover from assms(1) have "set ns = snd ` set (cache s)" by (simp add: shape_def)
  ultimately show "a \<in> set ns" by simp
  from assms(1) have "\<forall>e \<in> set (cache s). node_key (heap s (snd e)) = fst e"
    by (simp add: shape_def)
  from bspec [OF this m] show "node_key (heap s a) = k" by simp
qed

lemma shape_member:
  assumes "shape s ns" and "a \<in> set ns"
  shows "map_of (cache s) (node_key (heap s a)) = Some a"
proof -
  from assms have "a \<in> snd ` set (cache s)" by (simp add: shape_def)
  then obtain k where ka: "(k, a) \<in> set (cache s)" by auto
  with assms(1) have "node_key (heap s a) = k" by (fastforce simp: shape_def)
  with ka assms(1) show ?thesis by (simp add: shape_def)
qed

lemma shape_absent:
  assumes "shape s ns" and "map_of (cache s) k = None" and "a \<in> set ns"
  shows "node_key (heap s a) \<noteq> k"
  using shape_member [OF assms(1,3)] assms(2) by auto

lemma shape_length:
  assumes "shape s ns"
  shows "length (cache s) = length ns"
proof -
  from assms have "distinct (map snd (cache s))" "distinct ns" "set (map snd (cache s)) = set ns"
    by (simp_all add: shape_def)
  then have "length (map snd (cache s)) = length ns"
    by (metis distinct_card)
  then show ?thesis by simp
qed

lemma shape_keys_distinct:
  assumes "shape s ns"
  shows "distinct (map (\<lambda>a. node_key (heap s a)) ns)"
proof -
  have "inj_on (\<lambda>a. node_key (heap s a)) (set ns)"
  proof (rule inj_onI)
    fix a b assume "a \<in> set ns" "b \<in> set ns" "node_key (heap s a) = node_key (heap s b)"
    then show "a = b"
      using shape_member [OF assms, of a] shape_member [OF assms, of b]
      by (metis option.inject)
  qed
  moreover from assms have "distinct ns" by (simp add: shape_def)
  ultimately show ?thesis by (simp add: distinct_map)
qed

lemma shape_distinct:
  assumes "shape s ns"
  shows "distinct (head s # ns @ [tail s])"
  using assms by (simp add: shape_def)

lemma shape_links:
  assumes "shape s ns"
  shows "links (heap s) (head s) ns (tail s)"
  using assms by (simp add: shape_def)

lemma shape_recency:
  assumes "shape s ns"
  shows "recency s = Some ns"
proof -
  from assms have l: "links (heap s) (head s) ns (tail s)" and t: "tail s \<notin> set ns"
    and f: "\<forall>a \<in> set ns. a < fresh s" and hf: "head s < fresh s" and hn: "head s \<notin> set ns"
    and dd: "distinct ns"
    by (simp_all add: shape_def)
  have "set (head s # ns) \<subseteq> {..<fresh s}" using f hf by auto
  then have "card (set (head s # ns)) \<le> card {..<fresh s}"
    by (intro card_mono) auto
  moreover have "card (set (head s # ns)) = length (head s # ns)"
    using dd hn by (intro distinct_card) simp
  ultimately have "length ns < fresh s" by simp
  with l t show ?thesis by (simp add: recency_def follow_links)
qed

lemma update_absent: "map_of d k = None \<Longrightarrow> AList.update k v d = d @ [(k, v)]"
  by (induction d) (auto split: if_splits)

lemma delete_present:
  "distinct (map fst d) \<Longrightarrow> (k, a) \<in> set d \<Longrightarrow> set (AList.delete k d) = set d - {(k, a)}"
  by (induction d) (auto simp: AList.delete_eq rev_image_eqI)

lemma delete_absent: "k \<notin> fst ` set d \<Longrightarrow> AList.delete k d = d"
  by (induction d) (auto simp: AList.delete_eq)

lemma delete_length:
  "distinct (map fst d) \<Longrightarrow> (k, a) \<in> set d \<Longrightarrow> Suc (length (AList.delete k d)) = length d"
proof (induction d)
  case Nil
  then show ?case by simp
next
  case (Cons e d)
  show ?case
  proof (cases "fst e = k")
    case True
    with Cons.prems have "k \<notin> fst ` set d" by auto
    then have "AList.delete k d = d" by (rule delete_absent)
    with True show ?thesis by (cases e) (simp add: AList.delete_eq)
  next
    case False
    with Cons show ?thesis by (cases e) (auto simp: AList.delete_eq)
  qed
qed

lemma delete_snd_distinct:
  "distinct (map snd d) \<Longrightarrow> distinct (map snd (AList.delete k d))"
  by (induction d) (auto simp: AList.delete_eq)

lemma counters_heap [simp]: "counters (s\<lparr>heap := h\<rparr>) = counters s"
  by (simp add: counters_def)

text \<open>A hit of get.\<close>

lemma get_hit:
  assumes "shape s ns" and "map_of (cache s) k = Some a"
  shows "\<exists>h'. get s k = Inr (node_value (heap s a),
            s\<lparr>heap := h', metrics := (metrics s)\<lparr>total_requests := total_requests (metrics s) + 1,
                                                hits := hits (metrics s) + 1\<rparr>\<rparr>) \<and>
          links h' (head s) (a # remove1 a ns) (tail s) \<and> same_payload (heap s) h'"
proof -
  let ?s1 = "s\<lparr>metrics := (metrics s)\<lparr>total_requests := total_requests (metrics s) + 1\<rparr>\<rparr>"
  from assms have a: "a \<in> set ns" by (rule shape_lookup)
  from assms(1) have "links (heap ?s1) (head ?s1) ns (tail ?s1)"
    and "distinct (head ?s1 # ns @ [tail ?s1])"
    by (simp_all add: shape_def)
  from move_to_head_links [OF this a] obtain h' where
    mv: "move_to_head ?s1 a = Inr (?s1\<lparr>heap := h'\<rparr>)" and
    l: "links h' (head s) (a # remove1 a ns) (tail s)" and p: "same_payload (heap s) h'"
    by auto
  from p have "node_value (h' a) = node_value (heap s a)" by (simp add: same_payload_def)
  with mv assms(2) have "get s k = Inr (node_value (heap s a),
            s\<lparr>heap := h', metrics := (metrics s)\<lparr>total_requests := total_requests (metrics s) + 1,
                                                hits := hits (metrics s) + 1\<rparr>\<rparr>)"
    by (simp add: get_def Let_def)
  with l p show ?thesis by blast
qed

lemma shape_move:
  assumes "shape s ns" and "a \<in> set ns" and "links h' (head s) (a # remove1 a ns) (tail s)"
    and "\<forall>x. node_key (h' x) = node_key (heap s x)"
  shows "shape (s\<lparr>heap := h'\<rparr>) (a # remove1 a ns)"
proof -
  from assms(1) have d: "distinct ns" by (simp add: shape_def)
  from assms(2) d have se: "set (a # remove1 a ns) = set ns"
    by (auto simp: set_remove1_eq)
  from assms(2) have le: "length (a # remove1 a ns) = length ns"
    by (simp add: length_remove1) (metis length_pos_if_in_set Suc_pred)
  from d have di: "distinct (a # remove1 a ns)" by simp
  show ?thesis
    using assms(1,3,4) unfolding shape_def se le
    by (simp add: di del: distinct.simps set_simps list.size links.simps)
qed

lemma same_payload_refl [simp]: "same_payload h h"
  by (simp add: same_payload_def)

lemma same_payload_trans: "same_payload h1 h2 \<Longrightarrow> same_payload h2 h3 \<Longrightarrow> same_payload h1 h3"
  by (simp add: same_payload_def)

lemma same_payload_key: "same_payload h h' \<Longrightarrow> node_key (h' x) = node_key (h x)"
  by (simp add: same_payload_def)

lemma same_payload_value: "same_payload h h' \<Longrightarrow> node_value (h' x) = node_value (h x)"
  by (simp add: same_payload_def)

lemma shapeI:
  assumes "0 < capacity s" and "int (length ns) \<le> capacity s"
    and "head s \<noteq> tail s" and "head s \<notin> set ns" and "tail s \<notin> set ns" and "distinct ns"
    and "head s < fresh s" and "tail s < fresh s" and "\<forall>a \<in> set ns. a < fresh s"
    and "links (heap s) (head s) ns (tail s)"
    and "distinct (map fst (cache s))" and "distinct (map snd (cache s))"
    and "set (map snd (cache s)) = set ns"
    and "\<forall>e \<in> set (cache s). node_key (heap s (snd e)) = fst e"
  shows "shape s ns"
  using assms unfolding shape_def by (intro conjI)

lemma shape_butlast_set:
  assumes "distinct ns" and "ns \<noteq> []"
  shows "set (butlast ns) = set ns - {last ns}"
proof -
  from assms(2) have "ns = butlast ns @ [last ns]" by simp
  with assms(1) have "distinct (butlast ns @ [last ns])" by simp
  then have "last ns \<notin> set (butlast ns)" by simp
  moreover have "set ns = insert (last ns) (set (butlast ns))"
    using \<open>ns = butlast ns @ [last ns]\<close> by (metis Un_insert_right append_Nil2 list.simps(15) set_append)
  ultimately show ?thesis by auto
qed

lemma delete_snd_set:
  assumes "distinct (map fst d)" and "distinct (map snd d)" and "(k, a) \<in> set d"
  shows "snd ` set (AList.delete k d) = snd ` set d - {a}"
proof -
  have s: "set (AList.delete k d) = set d - {(k, a)}"
    using assms(1,3) by (rule delete_present)
  have u: "e = (k, a)" if "e \<in> set d" "snd e = a" for e
    using assms(2,3) that by (metis distinct_map inj_onD snd_conv)
  show ?thesis
  proof (intro set_eqI iffI)
    fix x assume "x \<in> snd ` set (AList.delete k d)"
    then obtain e where e: "e \<in> set d" "e \<noteq> (k, a)" "x = snd e" unfolding s by blast
    with u [of e] have "x \<noteq> a" by blast
    with e show "x \<in> snd ` set d - {a}" by blast
  next
    fix x assume "x \<in> snd ` set d - {a}"
    then obtain e where e: "e \<in> set d" "x = snd e" "snd e \<noteq> a" by blast
    then have "e \<noteq> (k, a)" by auto
    with e show "x \<in> snd ` set (AList.delete k d)" unfolding s by blast
  qed
qed

lemma put_evict_full:
  assumes "shape s ns" and "capacity s \<le> int (length (cache s))"
  shows "\<exists>s'. put_evict s = Inr s' \<and> shape s' (butlast ns) \<and> ns \<noteq> [] \<and>
      pop_tail s = Inr (Some (last ns), s\<lparr>heap := heap s'\<rparr>) \<and>
      cache s' = AList.delete (node_key (heap s (last ns))) (cache s) \<and>
      metrics s' = (metrics s)\<lparr>evictions := evictions (metrics s) + 1\<rparr> \<and>
      capacity s' = capacity s \<and> fresh s' = fresh s \<and> head s' = head s \<and> tail s' = tail s \<and>
      same_payload (heap s) (heap s')"
proof -
  from assms(1) have len: "length (cache s) = length ns" by (rule shape_length)
  from assms(1) have cap: "0 < capacity s" by (simp add: shape_def)
  with assms(2) len have ne: "ns \<noteq> []" by auto
  from pop_tail_links [OF shape_links [OF assms(1)] shape_distinct [OF assms(1)] ne]
  obtain h' where pt: "pop_tail s = Inr (Some (last ns), s\<lparr>heap := h'\<rparr>)"
    and l: "links h' (head s) (butlast ns) (tail s)" and p: "same_payload (heap s) h'"
    by blast
  let ?a = "last ns" and ?k = "node_key (heap s (last ns))"
  from ne have a: "?a \<in> set ns" by simp
  from shape_member [OF assms(1) a] have m: "map_of (cache s) ?k = Some ?a" .
  then have ka: "(?k, ?a) \<in> set (cache s)" by (rule map_of_SomeD)
  let ?s' = "s\<lparr>heap := h', cache := AList.delete ?k (cache s),
                metrics := (metrics s)\<lparr>evictions := evictions (metrics s) + 1\<rparr>\<rparr>"
  have ev: "put_evict s = Inr ?s'"
    using assms(2) pt m p by (simp add: put_evict_def dict_del_def same_payload_def)
  from assms(1) have d: "distinct ns" and df: "distinct (map fst (cache s))"
    and ds: "distinct (map snd (cache s))" and se: "snd ` set (cache s) = set ns"
    and ks: "\<forall>e \<in> set (cache s). node_key (heap s (snd e)) = fst e"
    by (simp_all add: shape_def)
  have bs: "set (butlast ns) = set ns - {?a}" using d ne by (rule shape_butlast_set)
  have sh: "shape ?s' (butlast ns)"
  proof (rule shapeI)
    show "0 < capacity ?s'" using cap by simp
    from assms(1) have "int (length ns) \<le> capacity s" by (simp add: shape_def)
    then show "int (length (butlast ns)) \<le> capacity ?s'" by simp
    show "head ?s' \<noteq> tail ?s'" using assms(1) by (simp add: shape_def)
    show "head ?s' \<notin> set (butlast ns)" using assms(1) bs by (simp add: shape_def)
    show "tail ?s' \<notin> set (butlast ns)" using assms(1) bs by (simp add: shape_def)
    show "distinct (butlast ns)" using d by (rule distinct_butlast)
    show "head ?s' < fresh ?s'" using assms(1) by (simp add: shape_def)
    show "tail ?s' < fresh ?s'" using assms(1) by (simp add: shape_def)
    show "\<forall>a \<in> set (butlast ns). a < fresh ?s'" using assms(1) bs by (simp add: shape_def)
    show "links (heap ?s') (head ?s') (butlast ns) (tail ?s')" using l by simp
    show "distinct (map fst (cache ?s'))" using df by (simp add: distinct_delete)
    show "distinct (map snd (cache ?s'))" using ds by (simp add: delete_snd_distinct)
    show "set (map snd (cache ?s')) = set (butlast ns)"
      using delete_snd_set [OF df ds ka] se bs by simp
    show "\<forall>e \<in> set (cache ?s'). node_key (heap ?s' (snd e)) = fst e"
      using ks p delete_present [OF df ka] by (simp add: same_payload_def)
  qed
  show ?thesis using ev sh ne pt p by (intro exI [of _ ?s']) simp
qed

lemma shape_new_node:
  assumes "shape s ns"
  shows "shape (snd (new_node s k v t)) ns"
proof -
  let ?s' = "snd (new_node s k v t)"
  have f: "fresh ?s' = Suc (fresh s)" and h: "heap ?s' = (heap s)(fresh s := LRUNode_new k v t)"
    and o: "capacity ?s' = capacity s" "head ?s' = head s" "tail ?s' = tail s" "cache ?s' = cache s"
    by (simp_all add: new_node_def)
  from assms have b: "head s < fresh s" "tail s < fresh s" "\<forall>a \<in> set ns. a < fresh s"
    by (simp_all add: shape_def)
  have "links (heap ?s') (head s) ns (tail s) = links (heap s) (head s) ns (tail s)"
    unfolding h using b by (intro links_frame) auto
  moreover have "heap ?s' (snd e) = heap s (snd e)" if "e \<in> set (cache s)" for e
  proof -
    from that have "snd e \<in> snd ` set (cache s)" by (rule imageI)
    with assms have "snd e \<in> set ns" by (simp add: shape_def)
    with b have "snd e \<noteq> fresh s" by auto
    then show ?thesis unfolding h by simp
  qed
  ultimately show ?thesis
    using assms unfolding shape_def f o by (simp add: less_Suc_eq)
qed

lemma insert_new:
  assumes "shape s ns" and "int (length ns) < capacity s" and "map_of (cache s) k = None"
    and "nn < fresh s" and "nn \<notin> set ns" and "nn \<noteq> head s" and "nn \<noteq> tail s"
    and "node_key (heap s nn) = k"
  shows "\<exists>h'. add_node (s\<lparr>cache := AList.update k nn (cache s)\<rparr>) nn =
               Inr (s\<lparr>cache := AList.update k nn (cache s), heap := h'\<rparr>) \<and>
             shape (s\<lparr>cache := AList.update k nn (cache s), heap := h'\<rparr>) (nn # ns) \<and>
             same_payload (heap s) h'"
proof -
  let ?s3 = "s\<lparr>cache := AList.update k nn (cache s)\<rparr>"
  have l3: "links (heap ?s3) (head ?s3) ns (tail ?s3)" using shape_links [OF assms(1)] by simp
  have d3: "distinct (head ?s3 # ns @ [tail ?s3])" using shape_distinct [OF assms(1)] by simp
  have n3: "nn \<notin> set (head ?s3 # ns @ [tail ?s3])" using assms(5,6,7) by simp
  from add_node_links [OF l3 d3 n3] obtain h' where
    ad: "add_node ?s3 nn = Inr (?s3\<lparr>heap := h'\<rparr>)" and
    l: "links h' (head s) (nn # ns) (tail s)" and p: "same_payload (heap s) h'"
    by auto
  have up: "AList.update k nn (cache s) = cache s @ [(k, nn)]"
    using assms(3) by (rule update_absent)
  from assms(3) have kn: "k \<notin> fst ` set (cache s)" by (simp add: map_of_eq_None_iff)
  from assms(1) have se: "snd ` set (cache s) = set ns" by (simp add: shape_def)
  have "shape (?s3\<lparr>heap := h'\<rparr>) (nn # ns)"
  proof (rule shapeI)
    show "0 < capacity (?s3\<lparr>heap := h'\<rparr>)" using assms(1) by (simp add: shape_def)
    show "int (length (nn # ns)) \<le> capacity (?s3\<lparr>heap := h'\<rparr>)" using assms(2) by simp
    show "head (?s3\<lparr>heap := h'\<rparr>) \<noteq> tail (?s3\<lparr>heap := h'\<rparr>)"
      using assms(1) by (simp add: shape_def)
    show "head (?s3\<lparr>heap := h'\<rparr>) \<notin> set (nn # ns)"
      using assms(1,6) by (simp add: shape_def)
    show "tail (?s3\<lparr>heap := h'\<rparr>) \<notin> set (nn # ns)"
      using assms(1,7) by (simp add: shape_def)
    show "distinct (nn # ns)" using assms(1,5) by (simp add: shape_def)
    show "head (?s3\<lparr>heap := h'\<rparr>) < fresh (?s3\<lparr>heap := h'\<rparr>)"
      using assms(1) by (simp add: shape_def)
    show "tail (?s3\<lparr>heap := h'\<rparr>) < fresh (?s3\<lparr>heap := h'\<rparr>)"
      using assms(1) by (simp add: shape_def)
    show "\<forall>a \<in> set (nn # ns). a < fresh (?s3\<lparr>heap := h'\<rparr>)"
      using assms(1,4) by (simp add: shape_def)
    show "links (heap (?s3\<lparr>heap := h'\<rparr>)) (head (?s3\<lparr>heap := h'\<rparr>)) (nn # ns)
            (tail (?s3\<lparr>heap := h'\<rparr>))"
      using l by simp
    show "distinct (map fst (cache (?s3\<lparr>heap := h'\<rparr>)))"
      using assms(1) kn by (simp add: up shape_def)
    show "distinct (map snd (cache (?s3\<lparr>heap := h'\<rparr>)))"
      using assms(1,5) se by (simp add: up shape_def)
    show "set (map snd (cache (?s3\<lparr>heap := h'\<rparr>))) = set (nn # ns)"
      using se by (simp add: up)
    show "\<forall>e \<in> set (cache (?s3\<lparr>heap := h'\<rparr>)).
            node_key (heap (?s3\<lparr>heap := h'\<rparr>) (snd e)) = fst e"
      using assms(1,8) p by (simp add: up shape_def same_payload_def)
  qed
  with ad p show ?thesis by auto
qed

lemma map_of_delete_None: "map_of d k = None \<Longrightarrow> map_of (AList.delete k' d) k = None"
  by (simp add: delete_conv')

lemma put_new:
  assumes "shape s ns" and "counters s" and "map_of (cache s) k = None"
  shows "\<exists>s'. put s k v t = Inr (True, s') \<and>
      shape s' (fresh s # (if capacity s \<le> int (length (cache s)) then butlast ns else ns)) \<and>
      counters s' \<and> capacity s' = capacity s \<and>
      (\<forall>x. x < fresh s \<longrightarrow> node_key (heap s' x) = node_key (heap s x) \<and>
                             node_value (heap s' x) = node_value (heap s x)) \<and>
      node_key (heap s' (fresh s)) = k \<and> node_value (heap s' (fresh s)) = v \<and>
      hits (metrics s') = hits (metrics s) \<and> misses (metrics s') = misses (metrics s) \<and>
      total_requests (metrics s') = total_requests (metrics s) \<and>
      evictions (metrics s') =
        evictions (metrics s) + (if capacity s \<le> int (length (cache s)) then 1 else 0)"
proof -
  let ?full = "capacity s \<le> int (length (cache s))"
  let ?nn = "fresh s" and ?s1 = "snd (new_node s k v t)"
  let ?ns2 = "if ?full then butlast ns else ns"
  have nn: "fst (new_node s k v t) = ?nn" by (simp add: new_node_def)
  have s1: "shape ?s1 ns" using assms(1) by (rule shape_new_node)
  have f1: "cache ?s1 = cache s" "capacity ?s1 = capacity s" "fresh ?s1 = Suc (fresh s)"
    "head ?s1 = head s" "tail ?s1 = tail s" "metrics ?s1 = metrics s"
    "heap ?s1 = (heap s)(fresh s := LRUNode_new k v t)"
    by (simp_all add: new_node_def)
  from assms(1) have len: "length (cache s) = length ns" by (rule shape_length)
  from assms(1) have b: "head s < fresh s" "tail s < fresh s" "\<forall>a \<in> set ns. a < fresh s"
    and cap: "int (length ns) \<le> capacity s"
    by (simp_all add: shape_def)
  have "\<exists>s2. put_evict ?s1 = Inr s2 \<and> shape s2 ?ns2 \<and> int (length ?ns2) < capacity s \<and>
      map_of (cache s2) k = None \<and> same_payload (heap ?s1) (heap s2) \<and>
      fresh s2 = Suc (fresh s) \<and> capacity s2 = capacity s \<and> head s2 = head s \<and> tail s2 = tail s \<and>
      metrics s2 = (metrics s)\<lparr>evictions := evictions (metrics s) + (if ?full then 1 else 0)\<rparr>"
  proof (cases ?full)
    case True
    then have "capacity ?s1 \<le> int (length (cache ?s1))" by (simp add: f1)
    from put_evict_full [OF s1 this] obtain s2 where
      e: "put_evict ?s1 = Inr s2" "shape s2 (butlast ns)" "ns \<noteq> []"
        "cache s2 = AList.delete (node_key (heap ?s1 (last ns))) (cache ?s1)"
        "metrics s2 = (metrics ?s1)\<lparr>evictions := evictions (metrics ?s1) + 1\<rparr>"
        "capacity s2 = capacity ?s1" "fresh s2 = fresh ?s1" "head s2 = head ?s1" "tail s2 = tail ?s1"
        "same_payload (heap ?s1) (heap s2)"
      by blast
    from e(3) have "length (butlast ns) < length ns" by (simp add: length_greater_0_conv)
    with cap have "int (length (butlast ns)) < capacity s" by linarith
    moreover have "map_of (cache s2) k = None"
      unfolding e(4) f1 using assms(3) by (rule map_of_delete_None)
    ultimately show ?thesis using True e by (intro exI [of _ s2]) (simp add: f1)
  next
    case False
    then have "put_evict ?s1 = Inr ?s1" by (simp add: put_evict_def f1)
    moreover from False len have "int (length ns) < capacity s" by simp
    ultimately show ?thesis using False s1 assms(3) by (intro exI [of _ ?s1]) (simp add: f1)
  qed
  then obtain s2 where
    e: "put_evict ?s1 = Inr s2" "shape s2 ?ns2" "int (length ?ns2) < capacity s"
      "map_of (cache s2) k = None" "same_payload (heap ?s1) (heap s2)"
      "fresh s2 = Suc (fresh s)" "capacity s2 = capacity s" "head s2 = head s" "tail s2 = tail s"
      "metrics s2 = (metrics s)\<lparr>evictions := evictions (metrics s) + (if ?full then 1 else 0)\<rparr>"
    by blast
  have sub: "set ?ns2 \<subseteq> set ns" by (auto dest: in_set_butlastD)
  have k1: "node_key (heap ?s1 ?nn) = k" "node_value (heap ?s1 ?nn) = v"
    by (simp_all add: f1 LRUNode_new_def)
  have i1: "int (length ?ns2) < capacity s2" using e(3,7) by simp
  have i4: "?nn < fresh s2" using e(6) by simp
  have i5: "?nn \<notin> set ?ns2" using sub b by auto
  have i6: "?nn \<noteq> head s2" "?nn \<noteq> tail s2" using b e(8,9) by auto
  have i8: "node_key (heap s2 ?nn) = k" using e(5) k1 by (simp add: same_payload_def)
  let ?s3 = "s2\<lparr>cache := AList.update k ?nn (cache s2)\<rparr>"
  from insert_new [OF e(2) i1 e(4) i4 i5 i6 i8] obtain h' where
    ad: "add_node ?s3 ?nn = Inr (?s3\<lparr>heap := h'\<rparr>)" and
    sh: "shape (?s3\<lparr>heap := h'\<rparr>) (?nn # ?ns2)" and p: "same_payload (heap s2) h'"
    by blast
  let ?s4 = "?s3\<lparr>heap := h'\<rparr>"
  let ?s5 = "?s4\<lparr>metrics := (metrics ?s4)\<lparr>cache_size := int (length (cache ?s4))\<rparr>\<rparr>"
  have pt: "put s k v t = Inr (True, ?s5)"
    using assms(3) nn e(1) ad by (simp add: put_def Let_def case_prod_beta)
  have sh5: "shape ?s5 (?nn # ?ns2)" using sh by (simp add: shape_def)
  have c5: "counters ?s5" using assms(2) e(7,10) by (simp add: counters_def)
  have pay: "same_payload (heap ?s1) h'" using e(5) p by (rule same_payload_trans)
  have old: "node_key (h' x) = node_key (heap s x) \<and> node_value (h' x) = node_value (heap s x)"
    if "x < fresh s" for x
    using pay that by (simp add: same_payload_def f1)
  have new: "node_key (h' ?nn) = k" "node_value (h' ?nn) = v"
    using pay k1 by (simp_all add: same_payload_def)
  show ?thesis
    using pt sh5 c5 old new e(7,10) by (intro exI [of _ ?s5]) simp
qed

lemma shape_metrics [simp]: "shape (s\<lparr>metrics := m\<rparr>) ns = shape s ns"
  by (simp add: shape_def)

lemma put_existing:
  assumes "shape s ns" and "map_of (cache s) k = Some a"
  shows "\<exists>h'. put s k v t = Inr (False, s\<lparr>heap := h'\<rparr>) \<and>
      shape (s\<lparr>heap := h'\<rparr>) (a # remove1 a ns) \<and>
      (\<forall>x. node_key (h' x) = node_key (heap s x)) \<and>
      (\<forall>x. node_value (h' x) = (if x = a then v else node_value (heap s x)))"
proof -
  let ?h2 = "set_timestamp (set_value (heap s) a v) a t"
  let ?s0 = "s\<lparr>heap := ?h2\<rparr>"
  from assms have a: "a \<in> set ns" by (rule shape_lookup)
  have "links ?h2 (head s) ns (tail s) = links (heap s) (head s) ns (tail s)"
    by (intro links_frame) simp_all
  with shape_links [OF assms(1)] have l0: "links (heap ?s0) (head ?s0) ns (tail ?s0)" by simp
  have d0: "distinct (head ?s0 # ns @ [tail ?s0])" using shape_distinct [OF assms(1)] by simp
  from move_to_head_links [OF l0 d0 a] obtain h' where
    mv: "move_to_head ?s0 a = Inr (?s0\<lparr>heap := h'\<rparr>)" and
    l: "links h' (head s) (a # remove1 a ns) (tail s)" and p: "same_payload ?h2 h'"
    by auto
  have k: "\<forall>x. node_key (h' x) = node_key (heap s x)"
    using p by (simp add: same_payload_def)
  have w: "\<forall>x. node_value (h' x) = (if x = a then v else node_value (heap s x))"
    using p by (simp add: same_payload_def)
  have "put s k v t = Inr (False, s\<lparr>heap := h'\<rparr>)"
    using assms(2) mv by (simp add: put_def Let_def)
  moreover have "shape (s\<lparr>heap := h'\<rparr>) (a # remove1 a ns)"
    using assms(1) a l k by (rule shape_move)
  ultimately show ?thesis using k w by blast
qed

lemma get_hit_shape:
  assumes "shape s ns" and "map_of (cache s) k = Some a"
  shows "\<exists>h'. get s k = Inr (node_value (heap s a),
            s\<lparr>heap := h', metrics := (metrics s)\<lparr>total_requests := total_requests (metrics s) + 1,
                                                hits := hits (metrics s) + 1\<rparr>\<rparr>) \<and>
          shape (s\<lparr>heap := h'\<rparr>) (a # remove1 a ns) \<and> same_payload (heap s) h'"
proof -
  from assms have a: "a \<in> set ns" by (rule shape_lookup)
  from get_hit [OF assms] obtain h' where
    g: "get s k = Inr (node_value (heap s a),
            s\<lparr>heap := h', metrics := (metrics s)\<lparr>total_requests := total_requests (metrics s) + 1,
                                                hits := hits (metrics s) + 1\<rparr>\<rparr>)"
    and l: "links h' (head s) (a # remove1 a ns) (tail s)" and p: "same_payload (heap s) h'"
    by blast
  from p have "\<forall>x. node_key (h' x) = node_key (heap s x)" by (simp add: same_payload_def)
  with assms(1) a l have "shape (s\<lparr>heap := h'\<rparr>) (a # remove1 a ns)" by (rule shape_move)
  with g p show ?thesis by blast
qed

lemma get_miss:
  assumes "map_of (cache s) k = None"
  shows "get s k = Inr (None,
           s\<lparr>metrics := (metrics s)\<lparr>total_requests := total_requests (metrics s) + 1,
                                    misses := misses (metrics s) + 1\<rparr>\<rparr>)"
  using assms by (simp add: get_def Let_def)

lemma delete_absent_key:
  assumes "map_of (cache s) k = None"
  shows "delete s k = Inr (False, s)"
  using assms by (simp add: delete_def)

lemma delete_present_key:
  assumes "shape s ns" and "map_of (cache s) k = Some a"
  shows "\<exists>h'. delete s k = Inr (True,
            s\<lparr>heap := h', cache := AList.delete k (cache s),
               metrics := (metrics s)\<lparr>cache_size := int (length (AList.delete k (cache s)))\<rparr>\<rparr>) \<and>
          shape (s\<lparr>heap := h', cache := AList.delete k (cache s)\<rparr>) (remove1 a ns) \<and>
          same_payload (heap s) h'"
proof -
  from assms have a: "a \<in> set ns" and ka: "node_key (heap s a) = k" by (rule shape_lookup)+
  from remove_node_links [OF shape_links [OF assms(1)] shape_distinct [OF assms(1)] a]
  obtain h' where rm: "remove_node s a = Inr (s\<lparr>heap := h'\<rparr>)"
    and l: "links h' (head s) (remove1 a ns) (tail s)" and p: "same_payload (heap s) h'"
    by blast
  let ?s' = "s\<lparr>heap := h', cache := AList.delete k (cache s)\<rparr>"
  have de: "delete s k = Inr (True, ?s'\<lparr>metrics := (metrics s)\<lparr>cache_size := int (length (AList.delete k (cache s)))\<rparr>\<rparr>)"
    using assms(2) rm by (simp add: delete_def dict_del_def)
  from assms(2) have m: "(k, a) \<in> set (cache s)" by (rule map_of_SomeD)
  from assms(1) have d: "distinct ns" and df: "distinct (map fst (cache s))"
    and ds: "distinct (map snd (cache s))" and se: "snd ` set (cache s) = set ns"
    and ks: "\<forall>e \<in> set (cache s). node_key (heap s (snd e)) = fst e"
    by (simp_all add: shape_def)
  have rs: "set (remove1 a ns) = set ns - {a}" using d by (rule set_remove1_eq)
  have "shape ?s' (remove1 a ns)"
  proof (rule shapeI)
    show "0 < capacity ?s'" using assms(1) by (simp add: shape_def)
    from assms(1) have "int (length ns) \<le> capacity s" by (simp add: shape_def)
    moreover have "length (remove1 a ns) \<le> length ns" by (simp add: length_remove1)
    ultimately show "int (length (remove1 a ns)) \<le> capacity ?s'" by simp
    show "head ?s' \<noteq> tail ?s'" using assms(1) by (simp add: shape_def)
    show "head ?s' \<notin> set (remove1 a ns)" using assms(1) rs by (simp add: shape_def)
    show "tail ?s' \<notin> set (remove1 a ns)" using assms(1) rs by (simp add: shape_def)
    show "distinct (remove1 a ns)" using d by simp
    show "head ?s' < fresh ?s'" using assms(1) by (simp add: shape_def)
    show "tail ?s' < fresh ?s'" using assms(1) by (simp add: shape_def)
    show "\<forall>a \<in> set (remove1 a ns). a < fresh ?s'" using assms(1) rs by (simp add: shape_def)
    show "links (heap ?s') (head ?s') (remove1 a ns) (tail ?s')" using l by simp
    show "distinct (map fst (cache ?s'))" using df by (simp add: distinct_delete)
    show "distinct (map snd (cache ?s'))" using ds by (simp add: delete_snd_distinct)
    show "set (map snd (cache ?s')) = set (remove1 a ns)"
      using delete_snd_set [OF df ds m] se rs by simp
    show "\<forall>e \<in> set (cache ?s'). node_key (heap ?s' (snd e)) = fst e"
      using ks p delete_present [OF df m] by (simp add: same_payload_def)
  qed
  with de p show ?thesis by auto
qed

lemma shape_clear:
  assumes "shape s ns"
  shows "shape (clear s) []"
  using assms by (simp add: shape_def clear_def)

lemma shape_init:
  assumes "0 < c"
  shows "\<exists>s. init c th tt = Inr s \<and> shape s [] \<and> counters s \<and> capacity s = c \<and>
             evictions (metrics s) = 0 \<and> cache s = []"
  using assms by (simp add: init_def shape_def counters_def)

lemma counters_updates [simp]:
  "counters (s\<lparr>heap := h\<rparr>) = counters s"
  by (simp add: counters_def)

lemma exec_wf:
  assumes "wf s ns"
  shows "\<exists>r s' ns'. exec s c = Inr (r, s') \<and> wf s' ns' \<and> capacity s' = capacity s"
proof -
  from assms have sh: "shape s ns" and co: "counters s" by (simp_all add: wf_def)
  show ?thesis
  proof (cases c)
    case (Get k)
    show ?thesis
    proof (cases "map_of (cache s) k")
      case None
      from get_miss [OF None] sh co show ?thesis
        unfolding Get by (auto simp: wf_def counters_def)
    next
      case (Some a)
      let ?m = "(metrics s)\<lparr>total_requests := total_requests (metrics s) + 1,
                             hits := hits (metrics s) + 1\<rparr>"
      from get_hit_shape [OF sh Some] obtain h' where
        g: "get s k = Inr (node_value (heap s a), s\<lparr>heap := h', metrics := ?m\<rparr>)"
        and s': "shape (s\<lparr>heap := h'\<rparr>) (a # remove1 a ns)"
        by blast
      have "shape (s\<lparr>heap := h', metrics := ?m\<rparr>) (a # remove1 a ns)"
        using s' by (simp only: shape_metrics)
      moreover have "counters (s\<lparr>heap := h', metrics := ?m\<rparr>)"
        using co by (simp add: counters_def)
      ultimately have "wf (s\<lparr>heap := h', metrics := ?m\<rparr>) (a # remove1 a ns)"
        by (simp only: wf_def)
      moreover have "capacity (s\<lparr>heap := h', metrics := ?m\<rparr>) = capacity s" by simp
      ultimately show ?thesis
        unfolding Get using g by (simp only: exec.simps and_then_Inr case_prod_conv) blast
    qed
  next
    case (Put k v t)
    show ?thesis
    proof (cases "map_of (cache s) k")
      case None
      from put_new [OF sh co None, of v t] show ?thesis
        unfolding Put by (auto simp: wf_def)
    next
      case (Some a)
      from put_existing [OF sh Some, of v t] co show ?thesis
        unfolding Put by (auto simp: wf_def)
    qed
  next
    case (Delete k)
    show ?thesis
    proof (cases "map_of (cache s) k")
      case None
      from delete_absent_key [OF None] assms show ?thesis
        unfolding Delete by auto
    next
      case (Some a)
      let ?d = "AList.delete k (cache s)"
      let ?m = "(metrics s)\<lparr>cache_size := int (length ?d)\<rparr>"
      from delete_present_key [OF sh Some] obtain h' where
        g: "delete s k = Inr (True, s\<lparr>heap := h', cache := ?d, metrics := ?m\<rparr>)"
        and s': "shape (s\<lparr>heap := h', cache := ?d\<rparr>) (remove1 a ns)"
        by blast
      have "shape (s\<lparr>heap := h', cache := ?d, metrics := ?m\<rparr>) (remove1 a ns)"
        using s' by (simp only: shape_metrics)
      moreover have "counters (s\<lparr>heap := h', cache := ?d, metrics := ?m\<rparr>)"
        using co by (simp add: counters_def)
      ultimately have "wf (s\<lparr>heap := h', cache := ?d, metrics := ?m\<rparr>) (remove1 a ns)"
        by (simp only: wf_def)
      moreover have "capacity (s\<lparr>heap := h', cache := ?d, metrics := ?m\<rparr>) = capacity s" by simp
      ultimately show ?thesis
        unfolding Delete using g by (simp only: exec.simps and_then_Inr case_prod_conv) blast
    qed
  next
    case Clear
    from shape_clear [OF sh] co show ?thesis
      unfolding Clear by (auto simp: wf_def counters_def clear_def)
  next
    case Size
    from assms show ?thesis unfolding Size by auto
  next
    case GetMetrics
    from sh co show ?thesis
      unfolding GetMetrics by (auto simp: wf_def counters_def get_metrics_def)
  qed
qed

lemma run_wf:
  assumes "wf s ns"
  shows "\<exists>rs s' ns'. run s cs = Inr (rs, s') \<and> wf s' ns' \<and> capacity s' = capacity s"
  using assms
proof (induction cs arbitrary: s ns)
  case Nil
  then show ?case by auto
next
  case (Cons c cs)
  from exec_wf [OF Cons.prems, of c] obtain r s1 ns1 where
    e: "exec s c = Inr (r, s1)" "wf s1 ns1" "capacity s1 = capacity s"
    by blast
  from Cons.IH [OF e(2)] obtain rs s2 ns2 where
    "run s1 cs = Inr (rs, s2)" "wf s2 ns2" "capacity s2 = capacity s1"
    by blast
  with e show ?case by auto
qed

lemma session_wf:
  assumes "0 < c"
  shows "\<exists>rs s ns. session c th tt cs = Inr (rs, s) \<and> wf s ns \<and> capacity s = c"
proof -
  from shape_init [OF assms, of th tt] obtain s0 :: "('a, 'b) LRUCache" where
    i: "init c th tt = Inr s0" "shape s0 []" "counters s0" "capacity s0 = c"
    by blast
  then have "wf s0 []" by (simp add: wf_def)
  from run_wf [OF this, of cs] i show ?thesis by (auto simp: session_def)
qed

lemma session_Inr:
  assumes "session c th tt cs = Inr (rs, s)"
  shows "0 < c" and "\<exists>ns. wf s ns" and "capacity s = c"
proof -
  show c: "0 < c"
  proof (rule ccontr)
    assume "\<not> 0 < c"
    then have "init c th tt = (Inl (ValueError ''Capacity must be greater than 0'') :: error + ('a, 'b) LRUCache)"
      by (simp add: init_def)
    with assms show False by (simp add: session_def)
  qed
  from session_wf [OF c, of th tt cs] assms show "\<exists>ns. wf s ns" and "capacity s = c"
    by auto
qed

subsection \<open>The entries of a well-formed cache\<close>

lemma entries_cong:
  assumes "\<forall>a \<in> set ns. node_key (h' a) = node_key (h a) \<and> node_value (h' a) = node_value (h a)"
  shows "entries h' ns = entries h ns"
  using assms by (simp add: entries_def)

lemma entries_keys: "map fst (entries h ns) = map (\<lambda>a. node_key (h a)) ns"
  by (simp add: entries_def comp_def)

lemma entries_remove1:
  assumes "distinct (map (\<lambda>a. node_key (h a)) ns)" and "a \<in> set ns"
  shows "entries h (remove1 a ns) = AList.delete (node_key (h a)) (entries h ns)"
  using assms
proof (induction ns)
  case Nil
  then show ?case by simp
next
  case (Cons x xs)
  show ?case
  proof (cases "a = x")
    case True
    from Cons.prems(1) have "node_key (h x) \<notin> fst ` set (entries h xs)"
      by (simp add: entries_def image_image)
    then have "AList.delete (node_key (h x)) (entries h xs) = entries h xs"
      by (rule delete_absent)
    with True show ?thesis by (simp add: entries_def AList.delete_eq)
  next
    case False
    with Cons.prems have ax: "a \<in> set xs" by simp
    with Cons.prems(1) have "node_key (h x) \<noteq> node_key (h a)" by auto
    moreover from Cons.IH ax Cons.prems(1)
    have "entries h (remove1 a xs) = AList.delete (node_key (h a)) (entries h xs)" by simp
    ultimately show ?thesis using False by (simp add: entries_def AList.delete_eq)
  qed
qed

lemma entries_butlast: "entries h (butlast ns) = butlast (entries h ns)"
  by (simp add: entries_def map_butlast)

lemma holds_recency:
  assumes "holds s es"
  shows "recency_entries s = Some es"
  using assms shape_recency by (auto simp: holds_def wf_def recency_entries_def)

lemma holds_distinct:
  assumes "holds s es"
  shows "distinct (map fst es)"
  using assms shape_keys_distinct by (auto simp: holds_def wf_def entries_keys)

lemma holds_length:
  assumes "holds s es"
  shows "length es = length (cache s)"
proof -
  from assms obtain ns where "shape s ns" "entries (heap s) ns = es"
    by (auto simp: holds_def wf_def)
  with shape_length [of s ns] show ?thesis by (auto simp: entries_def)
qed

lemma holds_capacity:
  assumes "holds s es"
  shows "int (length es) \<le> capacity s"
  using assms by (auto simp: holds_def wf_def shape_def entries_def)

lemma shape_lookup_entries:
  assumes "shape s ns"
  shows "map_of (entries (heap s) ns) k =
         map_option (\<lambda>a. node_value (heap s a)) (map_of (cache s) k)"
proof (cases "map_of (cache s) k")
  case None
  have "k \<notin> fst ` set (entries (heap s) ns)"
  proof
    assume "k \<in> fst ` set (entries (heap s) ns)"
    then obtain a where "a \<in> set ns" "node_key (heap s a) = k"
      by (auto simp: entries_def)
    with shape_absent [OF assms None] show False by blast
  qed
  then have "map_of (entries (heap s) ns) k = None" by (simp add: map_of_eq_None_iff)
  with None show ?thesis by simp
next
  case (Some a)
  from shape_lookup [OF assms Some] have a: "a \<in> set ns" "node_key (heap s a) = k" by simp_all
  then have "(k, node_value (heap s a)) \<in> set (entries (heap s) ns)"
    by (force simp: entries_def)
  moreover have "distinct (map fst (entries (heap s) ns))"
    using shape_keys_distinct [OF assms] by (simp add: entries_keys)
  ultimately have "map_of (entries (heap s) ns) k = Some (node_value (heap s a))"
    by (rule map_of_is_SomeI [rotated])
  with Some show ?thesis by simp
qed

lemma holds_absent:
  assumes "holds s es"
  shows "map_of (cache s) k = None \<longleftrightarrow> map_of es k = None"
proof -
  from assms obtain ns where "shape s ns" "entries (heap s) ns = es"
    by (auto simp: holds_def wf_def)
  with shape_lookup_entries [of s ns k] show ?thesis by auto
qed

lemma holds_get:
  assumes "holds s es"
  shows "\<exists>s'. get s k = Inr ((case map_of es k of None \<Rightarrow> None | Some v \<Rightarrow> v), s') \<and>
     holds s' (case map_of es k of None \<Rightarrow> es | Some v \<Rightarrow> (k, v) # AList.delete k es) \<and>
     capacity s' = capacity s \<and> evictions (metrics s') = evictions (metrics s) \<and>
     cache s' = cache s"
proof -
  from assms obtain ns where sh: "shape s ns" and co: "counters s"
    and es: "entries (heap s) ns = es"
    by (auto simp: holds_def wf_def)
  note lk = shape_lookup_entries [OF sh, of k, unfolded es]
  show ?thesis
  proof (cases "map_of (cache s) k")
    case None
    let ?s' = "s\<lparr>metrics := (metrics s)\<lparr>total_requests := total_requests (metrics s) + 1,
                                            misses := misses (metrics s) + 1\<rparr>\<rparr>"
    from None lk have n: "map_of es k = None" by simp
    have "wf ?s' ns" using sh co by (simp add: wf_def counters_def)
    then have "holds ?s' es" using es by (auto simp: holds_def)
    with get_miss [OF None] n show ?thesis by simp
  next
    case (Some a)
    let ?m = "(metrics s)\<lparr>total_requests := total_requests (metrics s) + 1,
                           hits := hits (metrics s) + 1\<rparr>"
    from Some lk have n: "map_of es k = Some (node_value (heap s a))" by simp
    from shape_lookup [OF sh Some] have a: "a \<in> set ns" "node_key (heap s a) = k" by simp_all
    from get_hit_shape [OF sh Some] obtain h' where
      g: "get s k = Inr (node_value (heap s a), s\<lparr>heap := h', metrics := ?m\<rparr>)"
      and s': "shape (s\<lparr>heap := h'\<rparr>) (a # remove1 a ns)" and p: "same_payload (heap s) h'"
      by blast
    let ?s' = "s\<lparr>heap := h', metrics := ?m\<rparr>"
    have "shape ?s' (a # remove1 a ns)" using s' by (simp only: shape_metrics)
    moreover have "counters ?s'" using co by (simp add: counters_def)
    ultimately have w: "wf ?s' (a # remove1 a ns)" by (simp only: wf_def)
    have "entries h' (a # remove1 a ns) = entries (heap s) (a # remove1 a ns)"
      using p by (intro entries_cong) (simp add: same_payload_def)
    also have "\<dots> = (k, node_value (heap s a)) # entries (heap s) (remove1 a ns)"
      using a by (simp add: entries_def)
    also have "entries (heap s) (remove1 a ns) = AList.delete k es"
      using entries_remove1 [OF shape_keys_distinct [OF sh] a(1)] a(2) es by simp
    finally have "entries (heap ?s') (a # remove1 a ns) = (k, node_value (heap s a)) # AList.delete k es"
      by simp
    with w have "holds ?s' ((k, node_value (heap s a)) # AList.delete k es)"
      unfolding holds_def by blast
    with g n show ?thesis by simp
  qed
qed

lemma holds_put:
  assumes "holds s es"
  shows "\<exists>s'. put s k v t = Inr (map_of es k = None, s') \<and>
     holds s' ((k, v) # (case map_of es k of
                            None \<Rightarrow> (if capacity s \<le> int (length es) then butlast es else es)
                          | Some _ \<Rightarrow> AList.delete k es)) \<and>
     capacity s' = capacity s \<and>
     evictions (metrics s') =
       evictions (metrics s) + (if map_of es k = None \<and> capacity s \<le> int (length es) then 1 else 0)"
proof -
  from assms obtain ns where sh: "shape s ns" and co: "counters s"
    and es: "entries (heap s) ns = es"
    by (auto simp: holds_def wf_def)
  note lk = shape_lookup_entries [OF sh, of k, unfolded es]
  have len: "length es = length (cache s)" using assms by (rule holds_length)
  show ?thesis
  proof (cases "map_of (cache s) k")
    case None
    from None lk have n: "map_of es k = None" by simp
    let ?ns2 = "if capacity s \<le> int (length (cache s)) then butlast ns else ns"
    from put_new [OF sh co None, of v t] obtain s' where
      p: "put s k v t = Inr (True, s')" "shape s' (fresh s # ?ns2)" "counters s'"
        "capacity s' = capacity s"
        "\<forall>x. x < fresh s \<longrightarrow> node_key (heap s' x) = node_key (heap s x) \<and>
                               node_value (heap s' x) = node_value (heap s x)"
        "node_key (heap s' (fresh s)) = k" "node_value (heap s' (fresh s)) = v"
        "evictions (metrics s') =
           evictions (metrics s) + (if capacity s \<le> int (length (cache s)) then 1 else 0)"
      by blast
    from sh have b: "\<forall>a \<in> set ns. a < fresh s" by (simp add: shape_def)
    have "set ?ns2 \<subseteq> set ns" by (auto dest: in_set_butlastD)
    with b p(5) have "entries (heap s') ?ns2 = entries (heap s) ?ns2"
      by (intro entries_cong) auto
    also have "\<dots> = (if capacity s \<le> int (length es) then butlast es else es)"
      using es len by (simp add: entries_butlast)
    finally have "entries (heap s') (fresh s # ?ns2) =
        (k, v) # (if capacity s \<le> int (length es) then butlast es else es)"
      using p(6,7) by (simp add: entries_def)
    moreover have "wf s' (fresh s # ?ns2)" using p(2,3) by (simp only: wf_def)
    ultimately have "holds s' ((k, v) # (if capacity s \<le> int (length es) then butlast es else es))"
      unfolding holds_def by blast
    with p(1,4,8) n len show ?thesis by simp
  next
    case (Some a)
    from Some lk have n: "map_of es k = Some (node_value (heap s a))" by simp
    from shape_lookup [OF sh Some] have a: "a \<in> set ns" "node_key (heap s a) = k" by simp_all
    from put_existing [OF sh Some, of v t] obtain h' where
      p: "put s k v t = Inr (False, s\<lparr>heap := h'\<rparr>)" and
      s': "shape (s\<lparr>heap := h'\<rparr>) (a # remove1 a ns)" and
      ke: "\<forall>x. node_key (h' x) = node_key (heap s x)" and
      va: "\<forall>x. node_value (h' x) = (if x = a then v else node_value (heap s x))"
      by blast
    from sh have d: "distinct ns" by (simp add: shape_def)
    then have "a \<notin> set (remove1 a ns)" by simp
    with ke va have "entries h' (remove1 a ns) = entries (heap s) (remove1 a ns)"
      by (intro entries_cong) auto
    also have "\<dots> = AList.delete k es"
      using entries_remove1 [OF shape_keys_distinct [OF sh] a(1)] a(2) es by simp
    finally have "entries (heap (s\<lparr>heap := h'\<rparr>)) (a # remove1 a ns) = (k, v) # AList.delete k es"
      using ke va a(2) by (simp add: entries_def)
    moreover have "wf (s\<lparr>heap := h'\<rparr>) (a # remove1 a ns)" using s' co by (simp add: wf_def)
    ultimately have "holds (s\<lparr>heap := h'\<rparr>) ((k, v) # AList.delete k es)"
      unfolding holds_def by blast
    with p n show ?thesis by simp
  qed
qed

lemma holds_init:
  assumes "0 < c"
  shows "\<exists>s. init c th tt = Inr s \<and> holds s [] \<and> capacity s = c \<and> evictions (metrics s) = 0"
proof -
  from shape_init [OF assms, of th tt] obtain s :: "('a, 'b) LRUCache" where
    "init c th tt = Inr s" "shape s []" "counters s" "capacity s = c" "evictions (metrics s) = 0"
    by blast
  then show ?thesis by (auto simp: holds_def wf_def entries_def)
qed

lemma holds_session:
  assumes "session c th tt cs = Inr (rs, s)"
  shows "\<exists>es. holds s es"
  using session_Inr(2) [OF assms] by (auto simp: holds_def)

subsection \<open>Runs of calls\<close>

lemma run_append:
  assumes "run s xs = Inr (rs1, s1)" and "run s1 ys = Inr (rs2, s2)"
  shows "run s (xs @ ys) = Inr (rs1 @ rs2, s2)"
  using assms
proof (induction xs arbitrary: s rs1)
  case Nil
  then show ?case by simp
next
  case (Cons x xs)
  from Cons.prems(1) obtain r sa rs where
    e: "exec s x = Inr (r, sa)" and r: "run sa xs = Inr (rs, s1)" and rs: "rs1 = r # rs"
    by (auto simp: and_then_def split: sum.splits prod.splits)
  from Cons.IH [OF r Cons.prems(2)] e rs show ?case by simp
qed

lemma run_puts_room:
  assumes "holds s es" and "distinct (map fst ps)"
    and "\<forall>p \<in> set ps. map_of es (fst p) = None"
    and "int (length es + length ps) \<le> capacity s"
  shows "\<exists>rs s'. run s (map (\<lambda>(k, v, t). Put k v t) ps) = Inr (rs, s') \<and>
           holds s' (rev (map (\<lambda>(k, v, t). (k, v)) ps) @ es) \<and>
           capacity s' = capacity s \<and> evictions (metrics s') = evictions (metrics s)"
  using assms
proof (induction ps arbitrary: s es)
  case Nil
  then show ?case by simp
next
  case (Cons p ps)
  obtain k v t where p: "p = (k, v, t)" by (cases p)
  from Cons.prems(3) p have n: "map_of es k = None" by simp
  from Cons.prems(4) have room: "\<not> capacity s \<le> int (length es)" by simp
  from holds_put [OF Cons.prems(1), of k v t] n room obtain s1 where
    s1: "put s k v t = Inr (True, s1)" "holds s1 ((k, v) # es)" "capacity s1 = capacity s"
      "evictions (metrics s1) = evictions (metrics s)"
    by auto
  have d: "distinct (map fst ps)" using Cons.prems(2) by simp
  have a: "\<forall>q \<in> set ps. map_of ((k, v) # es) (fst q) = None"
    using Cons.prems(2,3) p by auto
  have l: "int (length ((k, v) # es) + length ps) \<le> capacity s1"
    using Cons.prems(4) s1(3) by simp
  from Cons.IH [OF s1(2) d a l] obtain rs s' where
    "run s1 (map (\<lambda>(k, v, t). Put k v t) ps) = Inr (rs, s')"
    "holds s' (rev (map (\<lambda>(k, v, t). (k, v)) ps) @ (k, v) # es)"
    "capacity s' = capacity s1" "evictions (metrics s') = evictions (metrics s1)"
    by blast
  with s1 p show ?case by simp
qed

subsection \<open>The table inside the operations\<close>

lemma remove_node_cache:
  "remove_node s a = Inr s' \<Longrightarrow> cache s' = cache s \<and> capacity s' = capacity s"
  by (auto simp: remove_node_def Let_def split: option.splits)

lemma add_node_cache:
  "add_node s a = Inr s' \<Longrightarrow> cache s' = cache s \<and> capacity s' = capacity s"
  by (auto simp: add_node_def Let_def split: option.splits)

lemma move_to_head_cache:
  "move_to_head s a = Inr s' \<Longrightarrow> cache s' = cache s \<and> capacity s' = capacity s"
  by (auto simp: move_to_head_def and_then_def split: sum.splits
           dest!: remove_node_cache add_node_cache)

lemma pop_tail_cache:
  "pop_tail s = Inr (r, s') \<Longrightarrow> cache s' = cache s \<and> capacity s' = capacity s"
  by (auto simp: pop_tail_def Let_def and_then_def split: if_splits option.splits sum.splits
           dest!: remove_node_cache)

lemma put_evict_trace:
  "put_evict s = and_then (evict_trace s) (\<lambda>tr. Inr (last (s # tr)))"
  by (simp add: put_evict_def evict_trace_def and_then_def Let_def
           split: sum.splits option.splits prod.splits)

lemma evict_trace_sizes:
  assumes "evict_trace s = Inr tr" and "x \<in> set tr"
  shows "length (cache x) \<le> length (cache s)"
  using assms
  by (auto simp: evict_trace_def dict_del_def and_then_def Let_def length_delete_le
           split: if_splits sum.splits option.splits prod.splits dest!: pop_tail_cache)

lemma put_put_trace:
  "put s k v t = and_then (put_trace s k v t) (\<lambda>tr. Inr (map_of (cache s) k = None, last tr))"
  by (simp add: put_def put_trace_def put_evict_trace and_then_def Let_def
           split: sum.splits option.splits prod.splits)

lemma put_trace_sizes:
  assumes "put_trace s k v t = Inr tr" and "x \<in> set tr"
  shows "length (cache x) \<le> length (cache s) \<or> cache x = cache (last tr)"
proof (cases "map_of (cache s) k")
  case None
  obtain node s1 where nn: "new_node s k v t = (node, s1)" by (cases "new_node s k v t")
  then have c1: "cache s1 = cache s" by (auto simp: new_node_def)
  from assms(1) None nn obtain tr1 s4 where
    e: "evict_trace s1 = Inr tr1" and
    a: "add_node ((last (s1 # tr1))\<lparr>cache := AList.update k node (cache (last (s1 # tr1)))\<rparr>) node = Inr s4"
    and tr: "tr = s1 # tr1 @ [(last (s1 # tr1))\<lparr>cache := AList.update k node (cache (last (s1 # tr1)))\<rparr>,
               s4, s4\<lparr>metrics := (metrics s4)\<lparr>cache_size := int (length (cache s4))\<rparr>\<rparr>]"
    by (auto simp: put_trace_def and_then_def Let_def simp del: last.simps split: sum.splits)
  define s3 where "s3 = (last (s1 # tr1))\<lparr>cache := AList.update k node (cache (last (s1 # tr1)))\<rparr>"
  from add_node_cache [OF a] have c4: "cache s4 = cache s3" by (simp add: s3_def)
  have tr': "tr = s1 # tr1 @ [s3, s4, s4\<lparr>metrics := (metrics s4)\<lparr>cache_size := int (length (cache s4))\<rparr>\<rparr>]"
    using tr by (simp only: s3_def)
  have la: "cache (last tr) = cache s4" unfolding tr' by simp
  from assms(2) have "x = s1 \<or> x \<in> set tr1 \<or> x = s3 \<or> x = s4 \<or>
      x = s4\<lparr>metrics := (metrics s4)\<lparr>cache_size := int (length (cache s4))\<rparr>\<rparr>"
    unfolding tr' by auto
  then consider "x = s1" | "x \<in> set tr1" | "cache x = cache s4" using c4 by auto
  then show ?thesis
  proof cases
    case 1
    with c1 show ?thesis by simp
  next
    case 2
    from evict_trace_sizes [OF e 2] c1 show ?thesis by simp
  next
    case 3
    with la show ?thesis by simp
  qed
next
  case (Some a)
  with assms show ?thesis
    by (auto simp: put_trace_def and_then_def Let_def split: sum.splits
             dest!: move_to_head_cache)
qed

subsection \<open>Timestamps are never read\<close>

lemma untime_heap_fields [simp]:
  "node_key (untime_heap h a) = node_key (h a)"
  "node_value (untime_heap h a) = node_value (h a)"
  "node_prev (untime_heap h a) = node_prev (h a)"
  "node_next (untime_heap h a) = node_next (h a)"
  by (simp_all add: untime_heap_def untime_node_def)

lemma untime_heap_set_prev: "untime_heap (set_prev h x p) = set_prev (untime_heap h) x p"
  by (auto simp: fun_eq_iff untime_heap_def untime_node_def set_prev_def)

lemma untime_heap_set_next: "untime_heap (set_next h x n) = set_next (untime_heap h) x n"
  by (auto simp: fun_eq_iff untime_heap_def untime_node_def set_next_def)

lemma untime_heap_set_value: "untime_heap (set_value h x v) = set_value (untime_heap h) x v"
  by (auto simp: fun_eq_iff untime_heap_def untime_node_def set_value_def)

lemma untime_heap_set_timestamp:
  "untime_heap (set_timestamp h x t) = set_timestamp (untime_heap h) x ()"
  by (auto simp: fun_eq_iff untime_heap_def untime_node_def set_timestamp_def)

lemma untime_heap_new:
  "untime_heap (h(a := LRUNode_new k v t)) = (untime_heap h)(a := LRUNode_new k v ())"
  by (auto simp: fun_eq_iff untime_heap_def untime_node_def LRUNode_new_def)

lemma untime_fields [simp]:
  "capacity (untime s) = capacity s" "cache (untime s) = cache s"
  "metrics (untime s) = metrics s" "head (untime s) = head s" "tail (untime s) = tail s"
  "heap (untime s) = untime_heap (heap s)" "fresh (untime s) = fresh s"
  by (simp_all add: untime_def)

lemma untime_updates:
  "untime (s\<lparr>heap := h\<rparr>) = (untime s)\<lparr>heap := untime_heap h\<rparr>"
  "untime (s\<lparr>metrics := m\<rparr>) = (untime s)\<lparr>metrics := m\<rparr>"
  "untime (s\<lparr>cache := d\<rparr>) = (untime s)\<lparr>cache := d\<rparr>"
  "untime (s\<lparr>fresh := f\<rparr>) = (untime s)\<lparr>fresh := f\<rparr>"
  by (simp_all add: untime_def)

lemmas untime_simps =
  untime_updates untime_heap_set_prev untime_heap_set_next untime_heap_set_value
  untime_heap_set_timestamp untime_heap_new

lemma untime_remove_node:
  "remove_node (untime s) a = map_sum id untime (remove_node s a)"
  by (simp add: remove_node_def Let_def untime_simps split: option.splits)

lemma untime_add_node:
  "add_node (untime s) a = map_sum id untime (add_node s a)"
  by (simp add: add_node_def Let_def untime_simps split: option.splits)

lemma untime_move_to_head:
  "move_to_head (untime s) a = map_sum id untime (move_to_head s a)"
  by (cases "remove_node s a")
     (simp_all add: move_to_head_def untime_remove_node untime_add_node)

lemma untime_pop_tail:
  "pop_tail (untime s) = map_sum id (map_prod id untime) (pop_tail s)"
proof (cases "node_prev (heap s (tail s))")
  case None
  then show ?thesis by (simp add: pop_tail_def)
next
  case (Some l)
  then show ?thesis
    by (cases "remove_node s l") (simp_all add: pop_tail_def untime_remove_node)
qed

lemma untime_put_evict:
  "put_evict (untime s) = map_sum id untime (put_evict s)"
proof (cases "pop_tail s")
  case (Inl e)
  then show ?thesis by (simp add: put_evict_def untime_pop_tail)
next
  case (Inr r)
  obtain tl s1 where r: "r = (tl, s1)" by (cases r)
  show ?thesis
  proof (cases tl)
    case None
    with Inr r show ?thesis by (simp add: put_evict_def untime_pop_tail)
  next
    case (Some a)
    with Inr r show ?thesis
      by (cases "dict_del (node_key (heap s1 a)) (cache s1)")
         (simp_all add: put_evict_def untime_pop_tail untime_simps)
  qed
qed

lemma untime_new_node:
  "new_node (untime s) k v () = map_prod id untime (new_node s k v t)"
  by (simp add: new_node_def untime_simps)

lemma untime_get:
  "get (untime s) k = map_sum id (map_prod id untime) (get s k)"
proof (cases "map_of (cache s) k")
  case None
  then show ?thesis by (simp add: get_def Let_def untime_simps)
next
  case (Some a)
  let ?s1 = "s\<lparr>metrics := (metrics s)\<lparr>total_requests := total_requests (metrics s) + 1\<rparr>\<rparr>"
  have u: "untime ?s1 = (untime s)\<lparr>metrics := (metrics s)\<lparr>total_requests := total_requests (metrics s) + 1\<rparr>\<rparr>"
    by (simp add: untime_simps)
  show ?thesis
    using Some untime_move_to_head [of ?s1 a]
    by (cases "move_to_head ?s1 a") (simp_all add: get_def Let_def u untime_simps)
qed

lemma untime_put:
  "put (untime s) k v () = map_sum id (map_prod id untime) (put s k v t)"
proof (cases "map_of (cache s) k")
  case None
  define s1 where "s1 = snd (new_node s k v t)"
  have nn: "new_node s k v t = (fresh s, s1)" by (simp add: s1_def new_node_def)
  have un: "new_node (untime s) k v () = (fresh s, untime s1)"
    by (simp add: s1_def new_node_def untime_simps)
  show ?thesis
  proof (cases "put_evict s1")
    case (Inl e)
    with None show ?thesis
      by (simp add: put_def nn un untime_put_evict)
  next
    case (Inr s2)
    let ?s3 = "s2\<lparr>cache := AList.update k (fresh s) (cache s2)\<rparr>"
    have u3: "untime ?s3 = (untime s2)\<lparr>cache := AList.update k (fresh s) (cache s2)\<rparr>"
      by (simp add: untime_simps)
    from None Inr untime_add_node [of ?s3 "fresh s"] show ?thesis
      by (cases "add_node ?s3 (fresh s)")
         (simp_all add: put_def nn un untime_put_evict Let_def u3 untime_simps)
  qed
next
  case (Some a)
  let ?s0 = "s\<lparr>heap := set_timestamp (set_value (heap s) a v) a t\<rparr>"
  have u0: "untime ?s0 = (untime s)\<lparr>heap := set_timestamp (set_value (untime_heap (heap s)) a v) a ()\<rparr>"
    by (simp add: untime_simps)
  from Some untime_move_to_head [of ?s0 a] show ?thesis
    by (cases "move_to_head ?s0 a") (simp_all add: put_def Let_def u0)
qed

lemma untime_delete:
  "delete (untime s) k = map_sum id (map_prod id untime) (delete s k)"
proof (cases "map_of (cache s) k")
  case None
  then show ?thesis by (simp add: delete_def)
next
  case (Some a)
  show ?thesis
  proof (cases "remove_node s a")
    case (Inl e)
    with Some show ?thesis by (simp add: delete_def untime_remove_node)
  next
    case (Inr s1)
    with Some show ?thesis
      by (cases "dict_del k (cache s1)") (simp_all add: delete_def untime_remove_node untime_simps)
  qed
qed

lemma untime_clear: "clear (untime s) = untime (clear s)"
  by (simp add: clear_def Let_def untime_simps)

lemma untime_get_metrics: "get_metrics (untime s) = map_prod id untime (get_metrics s)"
  by (simp add: get_metrics_def Let_def untime_simps)

lemma untime_exec:
  "exec (untime s) (untime_call c) = map_sum id (map_prod id untime) (exec s c)"
proof (cases c)
  case (Get k)
  then show ?thesis by (cases "get s k") (auto simp: untime_get)
next
  case (Put k v t)
  then show ?thesis by (cases "put s k v t") (auto simp: untime_put [of s k v t])
next
  case (Delete k)
  then show ?thesis by (cases "delete s k") (auto simp: untime_delete)
next
  case Clear
  then show ?thesis by (simp add: untime_clear)
next
  case Size
  then show ?thesis by (simp add: size_lru_def)
next
  case GetMetrics
  then show ?thesis by (simp add: untime_get_metrics get_metrics_def Let_def)
qed

lemma untime_run:
  "run (untime s) (map untime_call cs) = map_sum id (map_prod id untime) (run s cs)"
proof (induction cs arbitrary: s)
  case Nil
  then show ?case by simp
next
  case (Cons c cs)
  show ?case
  proof (cases "exec s c")
    case (Inl e)
    then show ?thesis using untime_exec [of s c] by simp
  next
    case (Inr p)
    obtain r s1 where p: "p = (r, s1)" by (cases p)
    with Inr untime_exec [of s c] have e: "exec (untime s) (untime_call c) = Inr (r, untime s1)"
      by simp
    show ?thesis
    proof (cases "run s1 cs")
      case (Inl e')
      with Cons.IH [of s1] Inr p e show ?thesis by simp
    next
      case (Inr q)
      with Cons.IH [of s1] \<open>exec s c = Inr p\<close> p e show ?thesis by (cases q) simp
    qed
  qed
qed

lemma untime_init:
  "(init c () () :: error + ('v, unit) LRUCache) = map_sum id untime (init c th tt :: error + ('v, 't) LRUCache)"
  by (auto simp: init_def Let_def untime_def fun_eq_iff untime_heap_def untime_node_def
        set_prev_def set_next_def LRUNode_new_def)

lemma untime_session:
  "session c () () (map untime_call cs) = map_sum id (map_prod id untime) (session c th tt cs)"
proof (cases "init c th tt :: error + ('a, 'b) LRUCache")
  case (Inl e)
  with untime_init [of c th tt, where ?'v = 'a] show ?thesis by (simp add: session_def)
next
  case (Inr s0)
  with untime_init [of c th tt, where ?'v = 'a] untime_run [of s0 cs] show ?thesis
    by (simp add: session_def)
qed

lemma follow_untime: "follow (untime_heap h) stop n x = follow h stop n x"
  by (induction h stop n x rule: follow.induct) simp_all

lemma recency_untime: "recency (untime s) = recency s"
  by (simp add: recency_def follow_untime)

lemma entries_untime: "entries (untime_heap h) = entries h"
  by (simp add: fun_eq_iff entries_def)

lemma recency_entries_untime: "recency_entries (untime s) = recency_entries s"
  by (simp add: recency_entries_def recency_untime entries_untime)

section \<open>The claims\<close>

lemma run_length:
  "run s cs = Inr (rs, s') \<Longrightarrow> length rs = length cs"
proof (induction cs arbitrary: s rs)
  case Nil
  then show ?case by simp
next
  case (Cons c cs)
  then show ?case
    by (auto simp: and_then_def split: sum.splits prod.splits)
qed

text \<open>The definitions that evaluate a session on concrete calls.\<close>

lemmas eval_defs =
  session_def init_def put_def get_def delete_def clear_def size_lru_def get_metrics_def
  new_node_def put_evict_def pop_tail_def remove_node_def add_node_def move_to_head_def
  dict_del_def LRUNode_new_def set_prev_def set_next_def set_value_def set_timestamp_def
  Let_def AList.delete_eq recency_def recency_entries_def entries_def

text \<open>
  C6: for every cache and every key that is not in the table, \<^verbatim>\<open>get\<close> returns
  \<^verbatim>\<open>None\<close>, adds one to \<open>misses\<close> and to \<open>total_requests\<close>, and changes nothing else:
  the table, the store with the recency list, the size and the other counters are as before.
\<close>

theorem C6_get_miss_frame:
  assumes "map_of (cache s) k = None"
  shows "\<exists>s'. get s k = Inr (None, s') \<and>
           misses (metrics s') = misses (metrics s) + 1 \<and>
           total_requests (metrics s') = total_requests (metrics s) + 1 \<and>
           hits (metrics s') = hits (metrics s) \<and>
           evictions (metrics s') = evictions (metrics s) \<and>
           cache_size (metrics s') = cache_size (metrics s) \<and>
           max_size (metrics s') = max_size (metrics s) \<and>
           cache s' = cache s \<and> heap s' = heap s \<and> head s' = head s \<and> tail s' = tail s \<and>
           fresh s' = fresh s \<and> capacity s' = capacity s \<and>
           recency s' = recency s \<and> recency_entries s' = recency_entries s \<and>
           size_lru s' = size_lru s"
  using get_miss [OF assms] by (simp add: recency_def recency_entries_def size_lru_def)

theorem C6_get_miss_frame_witness:
  "map_of (cache (snd (projr (session 1 (0::nat) 0 [Put ''a'' (Some (1::nat)) 1])))) ''b'' = None \<and>
   fst (projr (get (snd (projr (session 1 (0::nat) 0 [Put ''a'' (Some (1::nat)) 1]))) ''b'')) = None \<and>
   misses (metrics (snd (projr (get (snd (projr (session 1 (0::nat) 0 [Put ''a'' (Some (1::nat)) 1]))) ''b'')))) = 1"
proof -
  let ?s = "snd (projr (session 1 (0::nat) 0 [Put ''a'' (Some (1::nat)) 1]))"
  have h: "map_of (cache ?s) ''b'' = None" by (simp add: eval_defs)
  have m: "misses (metrics ?s) = 0" by (simp add: eval_defs)
  from C6_get_miss_frame [OF h] m h show ?thesis by auto
qed

text \<open>
  C7: the constructor raises \<^verbatim>\<open>ValueError\<close> exactly when the capacity is not positive,
  and on a cache constructed with a positive capacity every sequence of calls of
  \<^verbatim>\<open>get\<close>, \<^verbatim>\<open>put\<close>, \<^verbatim>\<open>delete\<close>, \<^verbatim>\<open>clear\<close>, \<^verbatim>\<open>size\<close> and \<^verbatim>\<open>get_metrics\<close> runs to
  its end: every call returns a result and none raises. (The derived rates \<^verbatim>\<open>hit_rate\<close>
  and \<^verbatim>\<open>miss_rate\<close> are floating point and are not part of the model.)
\<close>

theorem C7_construction_and_totality:
  "(c \<le> 0 \<longrightarrow>
      (init c th tt :: error + ('v, 't) LRUCache) = Inl (ValueError ''Capacity must be greater than 0'')) \<and>
   (0 < c \<longrightarrow>
      (\<exists>s. (init c th tt :: error + ('v, 't) LRUCache) = Inr s) \<and>
      (\<exists>rs s. session c th tt (cs :: ('v, 't) call list) = Inr (rs, s) \<and> length rs = length cs))"
proof (intro conjI impI)
  assume "c \<le> 0"
  then show "(init c th tt :: error + ('v, 't) LRUCache) = Inl (ValueError ''Capacity must be greater than 0'')"
    by (simp add: init_def)
next
  assume "0 < c"
  then show "\<exists>s. (init c th tt :: error + ('v, 't) LRUCache) = Inr s"
    by (simp add: init_def)
next
  assume c: "0 < c"
  from session_wf [OF c, of th tt cs] obtain rs s where
    r: "session c th tt cs = Inr (rs, s)" by blast
  then obtain s0 where "init c th tt = Inr s0" "run s0 cs = Inr (rs, s)"
    by (auto simp: session_def and_then_def split: sum.splits)
  with run_length have "length rs = length cs" by blast
  with r show "\<exists>rs s. session c th tt cs = Inr (rs, s) \<and> length rs = length cs" by blast
qed

theorem C7_construction_and_totality_witness:
  "(init 0 (0::nat) 0 :: error + (nat, nat) LRUCache) = Inl (ValueError ''Capacity must be greater than 0'') \<and>
   (init (- 1) (0::nat) 0 :: error + (nat, nat) LRUCache) = Inl (ValueError ''Capacity must be greater than 0'') \<and>
   (\<exists>rs s. session 1 (0::nat) 0
       [Put ''a'' (Some (1::nat)) 1, Put ''b'' None 2, Get ''a'', Delete ''b'', Clear] = Inr (rs, s) \<and>
      length rs = 5)"
  using C7_construction_and_totality [of 0 "0::nat" 0 "[]::(nat, nat) call list"]
        C7_construction_and_totality [of "- 1" "0::nat" 0 "[]::(nat, nat) call list"]
        C7_construction_and_totality [of 1 "0::nat" 0
          "[Put ''a'' (Some (1::nat)) 1, Put ''b'' None 2, Get ''a'', Delete ''b'', Clear]"]
  by (simp add: eval_nat_numeral)

text \<open>
  C8: for every cache, after \<^verbatim>\<open>clear\<close> the size is 0 and \<^verbatim>\<open>get\<close> on every key returns
  \<^verbatim>\<open>None\<close> and counts a miss, while \<open>hits\<close>, \<open>misses\<close>, \<open>evictions\<close>,
  \<open>total_requests\<close> and \<open>max_size\<close> are what they were before the \<^verbatim>\<open>clear\<close>.
\<close>

theorem C8_clear:
  "size_lru (clear s) = 0 \<and>
   get (clear s) k = Inr (None,
     (clear s)\<lparr>metrics := (metrics (clear s))\<lparr>
        total_requests := total_requests (metrics s) + 1, misses := misses (metrics s) + 1\<rparr>\<rparr>) \<and>
   hits (metrics (clear s)) = hits (metrics s) \<and>
   misses (metrics (clear s)) = misses (metrics s) \<and>
   evictions (metrics (clear s)) = evictions (metrics s) \<and>
   total_requests (metrics (clear s)) = total_requests (metrics s) \<and>
   max_size (metrics (clear s)) = max_size (metrics s) \<and>
   capacity (clear s) = capacity s"
  by (simp add: size_lru_def clear_def get_def Let_def)

text \<open>
  C3: in every state that a sequence of calls on a constructed cache reaches,
  \<open>hits + misses = total_requests\<close>. From such a state every call returns; \<^verbatim>\<open>get\<close> adds
  one to \<open>total_requests\<close> whether it hits or misses, and \<^verbatim>\<open>put\<close>, \<^verbatim>\<open>delete\<close>,
  \<^verbatim>\<open>clear\<close> and \<^verbatim>\<open>get_metrics\<close> leave \<open>hits\<close>, \<open>misses\<close> and \<open>total_requests\<close> as they
  are (\<^verbatim>\<open>size\<close> changes no state at all).
\<close>

theorem C3_request_counters:
  assumes "session c th tt cs = Inr (rs, s)"
  shows "hits (metrics s) + misses (metrics s) = total_requests (metrics s) \<and>
    (\<exists>r s'. get s k = Inr (r, s') \<and>
        total_requests (metrics s') = total_requests (metrics s) + 1 \<and>
        hits (metrics s') + misses (metrics s') = total_requests (metrics s')) \<and>
    (\<exists>b s'. put s k v t = Inr (b, s') \<and>
        request_counters (metrics s') = request_counters (metrics s)) \<and>
    (\<exists>b s'. delete s k = Inr (b, s') \<and>
        request_counters (metrics s') = request_counters (metrics s)) \<and>
    request_counters (metrics (clear s)) = request_counters (metrics s) \<and>
    request_counters (metrics (snd (get_metrics s))) = request_counters (metrics s)"
proof -
  from session_Inr(2) [OF assms] obtain ns where "wf s ns" ..
  then have sh: "shape s ns" and co: "counters s" by (simp_all add: wf_def)
  from co have inv: "hits (metrics s) + misses (metrics s) = total_requests (metrics s)"
    by (simp add: counters_def)
  have g: "\<exists>r s'. get s k = Inr (r, s') \<and>
        total_requests (metrics s') = total_requests (metrics s) + 1 \<and>
        hits (metrics s') + misses (metrics s') = total_requests (metrics s')"
  proof (cases "map_of (cache s) k")
    case None
    from get_miss [OF None] inv show ?thesis by simp
  next
    case (Some a)
    from get_hit_shape [OF sh Some] inv show ?thesis by auto
  qed
  have p: "\<exists>b s'. put s k v t = Inr (b, s') \<and>
        request_counters (metrics s') = request_counters (metrics s)"
  proof (cases "map_of (cache s) k")
    case None
    from put_new [OF sh co None, of v t] show ?thesis
      by (auto simp: request_counters_def)
  next
    case (Some a)
    from put_existing [OF sh Some, of v t] show ?thesis
      by (auto simp: request_counters_def)
  qed
  have d: "\<exists>b s'. delete s k = Inr (b, s') \<and>
        request_counters (metrics s') = request_counters (metrics s)"
  proof (cases "map_of (cache s) k")
    case None
    from delete_absent_key [OF None] show ?thesis by auto
  next
    case (Some a)
    from delete_present_key [OF sh Some] show ?thesis
      by (auto simp: request_counters_def)
  qed
  have c: "request_counters (metrics (clear s)) = request_counters (metrics s)"
    by (simp add: clear_def request_counters_def)
  have m: "request_counters (metrics (snd (get_metrics s))) = request_counters (metrics s)"
    by (simp add: get_metrics_def request_counters_def)
  from inv g p d c m show ?thesis by (intro conjI)
qed

theorem C3_request_counters_witness:
  "session 2 (0::nat) 0 [Put ''a'' (Some (1::nat)) 1, Get ''a'', Get ''b''] =
     Inr (fst (projr (session 2 (0::nat) 0 [Put ''a'' (Some (1::nat)) 1, Get ''a'', Get ''b''])),
          snd (projr (session 2 (0::nat) 0 [Put ''a'' (Some (1::nat)) 1, Get ''a'', Get ''b'']))) \<and>
   request_counters (metrics (snd (projr (session 2 (0::nat) 0
      [Put ''a'' (Some (1::nat)) 1, Get ''a'', Get ''b''])))) = (1, 1, 2) \<and>
   request_counters (metrics (clear (snd (projr (session 2 (0::nat) 0
      [Put ''a'' (Some (1::nat)) 1, Get ''a'', Get ''b'']))))) = (1, 1, 2)"
proof -
  let ?r = "session 2 (0::nat) 0 [Put ''a'' (Some (1::nat)) 1, Get ''a'', Get ''b'']"
  have e: "?r = Inr (fst (projr ?r), snd (projr ?r))" by (simp add: eval_defs)
  have v: "request_counters (metrics (snd (projr ?r))) = (1, 1, 2)"
    by (simp add: eval_defs request_counters_def)
  from C3_request_counters [OF e, of "''a''" None 0] e v show ?thesis by simp
qed

text \<open>
  C5: in every state that a sequence of calls on a constructed cache reaches, full or not,
  \<^verbatim>\<open>put\<close> on a key that is in the table returns \<^verbatim>\<open>False\<close>, leaves the table, the size
  and all the counters (so also \<open>evictions\<close>) as they are, stores the new value, so that
  a following \<^verbatim>\<open>get\<close> returns it, and moves the node of the key to the head of the
  recency list, the other nodes keeping their order.
\<close>

theorem C5_put_existing:
  assumes "session c th tt cs = Inr (rs, s)" and "map_of (cache s) k = Some a"
  shows "\<exists>s' ns. put s k v t = Inr (False, s') \<and>
           size_lru s' = size_lru s \<and> cache s' = cache s \<and> metrics s' = metrics s \<and>
           evictions (metrics s') = evictions (metrics s) \<and>
           (\<exists>s''. get s' k = Inr (v, s'')) \<and>
           recency s = Some ns \<and> a \<in> set ns \<and> recency s' = Some (a # remove1 a ns) \<and>
           node_key (heap s' a) = k \<and> node_value (heap s' a) = v"
proof -
  from session_Inr(2) [OF assms(1)] obtain ns where "wf s ns" ..
  then have sh: "shape s ns" by (simp add: wf_def)
  from put_existing [OF sh assms(2), of v t] obtain h' where
    p: "put s k v t = Inr (False, s\<lparr>heap := h'\<rparr>)" and
    sh': "shape (s\<lparr>heap := h'\<rparr>) (a # remove1 a ns)" and
    ke: "\<forall>x. node_key (h' x) = node_key (heap s x)" and
    va: "\<forall>x. node_value (h' x) = (if x = a then v else node_value (heap s x))"
    by blast
  let ?s' = "s\<lparr>heap := h'\<rparr>"
  have m: "map_of (cache ?s') k = Some a" using assms(2) by simp
  from get_hit_shape [OF sh' m] va have g: "\<exists>s''. get ?s' k = Inr (v, s'')" by auto
  from shape_lookup [OF sh assms(2)] ke have a: "a \<in> set ns" "node_key (heap ?s' a) = k"
    by simp_all
  from va have w: "node_value (heap ?s' a) = v" by simp
  from shape_recency [OF sh] shape_recency [OF sh'] p g a w
  show ?thesis by (intro exI [of _ ?s'] exI [of _ ns]) (simp add: size_lru_def)
qed

theorem C5_put_existing_witness:
  "session 2 (0::nat) 0 [Put ''a'' (Some (1::nat)) 1, Put ''b'' (Some 2) 2] =
     Inr (fst (projr (session 2 (0::nat) 0 [Put ''a'' (Some (1::nat)) 1, Put ''b'' (Some 2) 2])),
          snd (projr (session 2 (0::nat) 0 [Put ''a'' (Some (1::nat)) 1, Put ''b'' (Some 2) 2]))) \<and>
   map_of (cache (snd (projr (session 2 (0::nat) 0
      [Put ''a'' (Some (1::nat)) 1, Put ''b'' (Some 2) 2])))) ''a'' = Some 2 \<and>
   size_lru (snd (projr (session 2 (0::nat) 0
      [Put ''a'' (Some (1::nat)) 1, Put ''b'' (Some 2) 2]))) = 2 \<and>
   (\<exists>s'. put (snd (projr (session 2 (0::nat) 0
      [Put ''a'' (Some (1::nat)) 1, Put ''b'' (Some 2) 2]))) ''a'' (Some 7) 3 = Inr (False, s') \<and>
      size_lru s' = 2 \<and> recency s' = Some [2, 3] \<and> (\<exists>s''. get s' ''a'' = Inr (Some 7, s'')))"
proof -
  let ?r = "session 2 (0::nat) 0 [Put ''a'' (Some (1::nat)) 1, Put ''b'' (Some 2) 2]"
  have e: "?r = Inr (fst (projr ?r), snd (projr ?r))" by (simp add: eval_defs)
  have m: "map_of (cache (snd (projr ?r))) ''a'' = Some 2" by (simp add: eval_defs)
  have z: "size_lru (snd (projr ?r)) = 2" by (simp add: eval_defs)
  have r: "recency (snd (projr ?r)) = Some [3, 2]"
    by (simp add: eval_defs eval_nat_numeral)
  from C5_put_existing [OF e m, of "Some 7" 3] r z e m show ?thesis by auto
qed

text \<open>
  C10: when \<^verbatim>\<open>put\<close> on a new key finds the table full, in a state that a sequence of
  calls on a constructed cache reaches, \<^verbatim>\<open>_pop_tail\<close> returns a node (never \<^verbatim>\<open>None\<close>): the
  last node of the recency list. The eviction removes exactly this node from the list and
  its key from the table, and adds exactly one to \<open>evictions\<close>.
\<close>

theorem C10_eviction_pops_a_node:
  assumes "session c th tt cs = Inr (rs, s)" and "map_of (cache s) k = None"
    and "capacity s \<le> int (length (cache s))"
  shows "\<exists>ns s1 s2 s'.
           recency s = Some ns \<and> ns \<noteq> [] \<and>
           pop_tail (snd (new_node s k v t)) = Inr (Some (last ns), s1) \<and>
           put_evict (snd (new_node s k v t)) = Inr s2 \<and>
           recency s2 = Some (butlast ns) \<and>
           cache s2 = AList.delete (node_key (heap s (last ns))) (cache s) \<and>
           map_of (cache s) (node_key (heap s (last ns))) = Some (last ns) \<and>
           Suc (length (cache s2)) = length (cache s) \<and>
           evictions (metrics s2) = evictions (metrics s) + 1 \<and>
           put s k v t = Inr (True, s') \<and>
           evictions (metrics s') = evictions (metrics s) + 1 \<and>
           size_lru s' = size_lru s"
proof -
  from session_Inr(2) [OF assms(1)] obtain ns where "wf s ns" ..
  then have sh: "shape s ns" and co: "counters s" by (simp_all add: wf_def)
  let ?s1 = "snd (new_node s k v t)"
  have f1: "cache ?s1 = cache s" "capacity ?s1 = capacity s" "metrics ?s1 = metrics s"
    by (simp_all add: new_node_def)
  from sh have b: "\<forall>a \<in> set ns. a < fresh s" by (simp add: shape_def)
  have s1: "shape ?s1 ns" using sh by (rule shape_new_node)
  from assms(3) have "capacity ?s1 \<le> int (length (cache ?s1))" by (simp add: f1)
  from put_evict_full [OF s1 this] obtain s2 where
    e: "put_evict ?s1 = Inr s2" "shape s2 (butlast ns)" "ns \<noteq> []"
      "pop_tail ?s1 = Inr (Some (last ns), ?s1\<lparr>heap := heap s2\<rparr>)"
      "cache s2 = AList.delete (node_key (heap ?s1 (last ns))) (cache ?s1)"
      "metrics s2 = (metrics ?s1)\<lparr>evictions := evictions (metrics ?s1) + 1\<rparr>"
    by blast
  from e(3) b have "last ns \<noteq> fresh s" by (metis last_in_set less_irrefl)
  then have hk: "heap ?s1 (last ns) = heap s (last ns)" by (simp add: new_node_def)
  from e(3) have la: "last ns \<in> set ns" by simp
  from shape_member [OF sh la] have m: "map_of (cache s) (node_key (heap s (last ns))) = Some (last ns)" .
  then have "(node_key (heap s (last ns)), last ns) \<in> set (cache s)" by (rule map_of_SomeD)
  moreover from sh have "distinct (map fst (cache s))" by (simp add: shape_def)
  ultimately have len: "Suc (length (AList.delete (node_key (heap s (last ns))) (cache s))) = length (cache s)"
    by (intro delete_length)
  from put_new [OF sh co assms(2), of v t] assms(3) obtain s' where
    p: "put s k v t = Inr (True, s')" "evictions (metrics s') = evictions (metrics s) + 1"
      "shape s' (fresh s # butlast ns)"
    by auto
  from shape_length [OF p(3)] shape_length [OF sh] e(3)
  have sz: "size_lru s' = size_lru s"
    by (simp add: size_lru_def)
  from shape_recency [OF sh] shape_recency [OF e(2)] e m len p sz
  show ?thesis
    by (intro exI [of _ ns] exI [of _ "?s1\<lparr>heap := heap s2\<rparr>"] exI [of _ s2] exI [of _ s'])
       (simp add: hk f1)
qed

theorem C10_eviction_pops_a_node_witness:
  "session 1 (0::nat) 0 [Put ''a'' (Some (1::nat)) 1] =
     Inr (fst (projr (session 1 (0::nat) 0 [Put ''a'' (Some (1::nat)) 1])),
          snd (projr (session 1 (0::nat) 0 [Put ''a'' (Some (1::nat)) 1]))) \<and>
   map_of (cache (snd (projr (session 1 (0::nat) 0 [Put ''a'' (Some (1::nat)) 1])))) ''b'' = None \<and>
   capacity (snd (projr (session 1 (0::nat) 0 [Put ''a'' (Some (1::nat)) 1])))
     \<le> int (length (cache (snd (projr (session 1 (0::nat) 0 [Put ''a'' (Some (1::nat)) 1]))))) \<and>
   (\<exists>s1. pop_tail (snd (new_node (snd (projr (session 1 (0::nat) 0 [Put ''a'' (Some (1::nat)) 1])))
             ''b'' (Some 2) 2)) = Inr (Some 2, s1)) \<and>
   (\<exists>s'. put (snd (projr (session 1 (0::nat) 0 [Put ''a'' (Some (1::nat)) 1]))) ''b'' (Some 2) 2
             = Inr (True, s') \<and> evictions (metrics s') = 1)"
proof -
  let ?r = "session 1 (0::nat) 0 [Put ''a'' (Some (1::nat)) 1]"
  have e: "?r = Inr (fst (projr ?r), snd (projr ?r))" by (simp add: eval_defs)
  have m: "map_of (cache (snd (projr ?r))) ''b'' = None" by (simp add: eval_defs)
  have f: "capacity (snd (projr ?r)) \<le> int (length (cache (snd (projr ?r))))"
    by (simp add: eval_defs)
  have r: "recency (snd (projr ?r)) = Some [2]" by (simp add: eval_defs eval_nat_numeral)
  have v: "evictions (metrics (snd (projr ?r))) = 0" by (simp add: eval_defs)
  from C10_eviction_pops_a_node [OF e m f, of "Some 2" 2] r v e m f show ?thesis by auto
qed

text \<open>
  C1: for every capacity \<open>c > 0\<close>, constructing a cache of capacity \<open>c\<close> and putting
  \<open>c + 1\<close> distinct keys in order, with no other call between them, evicts exactly one
  entry, the one of the first key: \<^verbatim>\<open>get\<close> on the first key finds nothing, \<^verbatim>\<open>get\<close> on
  every other key returns the value put with it, and the recency list holds the other
  entries, the last put first.
\<close>

theorem C1_first_key_evicted:
  assumes "0 < c" and "length ps = nat c + 1" and "distinct (map fst ps)"
  shows "\<exists>rs s. session c th tt (map (\<lambda>(k, v, t). Put k v t) ps) = Inr (rs, s) \<and>
           evictions (metrics s) = 1 \<and> size_lru s = c \<and>
           map_of (cache s) (fst (hd ps)) = None \<and>
           (\<exists>s'. get s (fst (hd ps)) = Inr (None, s')) \<and>
           (\<forall>p \<in> set (tl ps). map_of (cache s) (fst p) \<noteq> None \<and>
                                (\<exists>s'. get s (fst p) = Inr (fst (snd p), s'))) \<and>
           recency_entries s = Some (rev (map (\<lambda>(k, v, t). (k, v)) (tl ps)))"
proof -
  let ?kv = "\<lambda>(k, v, t). (k, v)" and ?put = "\<lambda>(k, v, t). Put k v t"
  from assms(2) have ne: "ps \<noteq> []" by auto
  then have sp: "ps = butlast ps @ [last ps]" by simp
  obtain k v t where lp: "last ps = (k, v, t)" by (cases "last ps")
  let ?ps0 = "butlast ps"
  have l0: "length ?ps0 = nat c" using assms(2) by simp
  have ne0: "?ps0 \<noteq> []"
  proof
    assume "?ps0 = []"
    then have "length ?ps0 = 0" by (simp only: list.size)
    with l0 assms(1) show False by simp
  qed
  have d0: "distinct (map fst ?ps0)" using assms(3) by (simp add: distinct_butlast map_butlast)
  have kn: "k \<notin> fst ` set ?ps0"
  proof -
    have "distinct (map fst (butlast ps @ [last ps]))" using assms(3) sp by simp
    then show ?thesis using lp by simp
  qed
  from holds_init [OF assms(1), of th tt] obtain s0 :: "('a, 'b) LRUCache" where
    i: "init c th tt = Inr s0" "holds s0 []" "capacity s0 = c" "evictions (metrics s0) = 0"
    by blast
  have "int (length ([] :: (string \<times> 'a option) list) + length ?ps0) \<le> capacity s0"
    using l0 i(3) assms(1) by simp
  from run_puts_room [OF i(2) d0 _ this] obtain rs1 s1 where
    r1: "run s0 (map ?put ?ps0) = Inr (rs1, s1)" "holds s1 (rev (map ?kv ?ps0))"
      "capacity s1 = c" "evictions (metrics s1) = 0"
    using i(3,4) by auto
  let ?es1 = "rev (map ?kv ?ps0)"
  have n1: "map_of ?es1 k = None"
    using kn by (simp add: map_of_eq_None_iff image_image case_prod_beta)
  have full: "capacity s1 \<le> int (length ?es1)" using r1(3) l0 assms(1) by simp
  from holds_put [OF r1(2), of k v t] n1 full obtain s2 where
    p: "put s1 k v t = Inr (True, s2)" "holds s2 ((k, v) # butlast ?es1)"
      "capacity s2 = capacity s1" "evictions (metrics s2) = evictions (metrics s1) + 1"
    by auto
  have "run s1 [Put k v t] = Inr ([Flag True], s2)" using p(1) by simp
  from run_append [OF r1(1) this] sp lp
  have r: "run s0 (map ?put ps) = Inr (rs1 @ [Flag True], s2)"
    by (metis (no_types, lifting) case_prod_conv list.simps(8,9) map_append)
  then have se: "session c th tt (map ?put ps) = Inr (rs1 @ [Flag True], s2)"
    using i(1) by (simp add: session_def)
  let ?es = "rev (map ?kv (tl ps))"
  have tls: "tl ps = tl ?ps0 @ [(k, v, t)]" using sp lp ne0 by (metis tl_append2)
  have "butlast ?es1 = rev (tl (map ?kv ?ps0))" by (simp add: butlast_rev)
  then have es: "(k, v) # butlast ?es1 = ?es" using tls by (simp add: map_tl)
  with p(2) have h: "holds s2 ?es" by simp
  have dk: "distinct (map fst ?es)" using h by (rule holds_distinct)
  have hdps: "ps = hd ps # tl ps" using ne by simp
  have kh: "fst (hd ps) \<notin> fst ` set (tl ps)"
  proof -
    have "distinct (map fst (hd ps # tl ps))" using assms(3) hdps by simp
    then show ?thesis by simp
  qed
  then have n0: "map_of ?es (fst (hd ps)) = None"
    by (simp add: map_of_eq_None_iff image_image case_prod_beta)
  from holds_get [OF h, of "fst (hd ps)"] n0
  have g0: "\<exists>s'. get s2 (fst (hd ps)) = Inr (None, s')" by auto
  from holds_absent [OF h, of "fst (hd ps)"] n0
  have m0: "map_of (cache s2) (fst (hd ps)) = None" by simp
  have others: "map_of (cache s2) (fst q) \<noteq> None \<and> (\<exists>s'. get s2 (fst q) = Inr (fst (snd q), s'))"
    if "q \<in> set (tl ps)" for q
  proof -
    from that have "(fst q, fst (snd q)) \<in> set ?es" by (force simp: case_prod_beta)
    with dk have mq: "map_of ?es (fst q) = Some (fst (snd q))" by (rule map_of_is_SomeI)
    from holds_get [OF h, of "fst q"] mq have "\<exists>s'. get s2 (fst q) = Inr (fst (snd q), s')"
      by auto
    moreover from holds_absent [OF h, of "fst q"] mq have "map_of (cache s2) (fst q) \<noteq> None"
      by simp
    ultimately show ?thesis by blast
  qed
  have ev: "evictions (metrics s2) = 1" using p(4) r1(4) by simp
  have "length ?es = nat c" using assms(2) by simp
  with holds_length [OF h] assms(1) have sz: "size_lru s2 = c" by (simp add: size_lru_def)
  from se ev sz m0 g0 others holds_recency [OF h] show ?thesis by blast
qed

theorem C1_first_key_evicted_witness:
  "(0::int) < 2 \<and>
   length [(''a'', Some (1::nat), 1::nat), (''b'', Some 2, 2), (''c'', Some 3, 3)] = nat 2 + 1 \<and>
   distinct (map fst [(''a'', Some (1::nat), 1::nat), (''b'', Some 2, 2), (''c'', Some 3, 3)]) \<and>
   (\<exists>rs s. session 2 (0::nat) 0
              [Put ''a'' (Some (1::nat)) 1, Put ''b'' (Some 2) 2, Put ''c'' (Some 3) 3] = Inr (rs, s) \<and>
            evictions (metrics s) = 1 \<and> size_lru s = 2 \<and>
            map_of (cache s) ''a'' = None \<and>
            (\<exists>s'. get s ''a'' = Inr (None, s')) \<and>
            (\<exists>s'. get s ''b'' = Inr (Some 2, s')) \<and>
            (\<exists>s'. get s ''c'' = Inr (Some 3, s')) \<and>
            recency_entries s = Some [(''c'', Some 3), (''b'', Some 2)])"
  using C1_first_key_evicted [of 2 "[(''a'', Some (1::nat), 1::nat), (''b'', Some 2, 2), (''c'', Some 3, 3)]" 0 0]
  by simp blast

text \<open>
  C2, as stated, fails for a cache of capacity 1: the cache is full with the one key
  \<^verbatim>\<open>a\<close>, \<^verbatim>\<open>get\<close> on \<^verbatim>\<open>a\<close> hits, and the \<^verbatim>\<open>put\<close> of the new key \<^verbatim>\<open>b\<close> evicts \<^verbatim>\<open>a\<close>, the
  key just accessed, so that the next \<^verbatim>\<open>get\<close> on \<^verbatim>\<open>a\<close> misses.
\<close>

theorem C2_capacity_one_counterexample:
  "size_lru (snd (projr (session 1 (0::nat) 0 [Put ''a'' (Some (1::nat)) 1]))) =
     capacity (snd (projr (session 1 (0::nat) 0 [Put ''a'' (Some (1::nat)) 1]))) \<and>
   session 1 (0::nat) 0
     [Put ''a'' (Some (1::nat)) 1, Get ''a'', Put ''b'' (Some 2) 2, Get ''a'', GetMetrics] =
   Inr ([Flag True, Value (Some 1), Flag True, Value None,
         Snapshot \<lparr>hits = 1, misses = 1, evictions = 1, total_requests = 2,
                    cache_size = 1, max_size = 1\<rparr>],
        snd (projr (session 1 (0::nat) 0
          [Put ''a'' (Some (1::nat)) 1, Get ''a'', Put ''b'' (Some 2) 2, Get ''a'', GetMetrics]))) \<and>
   map_of (cache (snd (projr (session 1 (0::nat) 0
     [Put ''a'' (Some (1::nat)) 1, Get ''a'', Put ''b'' (Some 2) 2])))) ''a'' = None"
  by (simp add: eval_defs)

text \<open>
  C2, amended: in every state that a sequence of calls on a cache of capacity at least 2
  reaches and in which the cache is full, a \<^verbatim>\<open>get\<close> on a key of the table followed by
  the \<^verbatim>\<open>put\<close> of a new key evicts exactly one entry, which is not the one just accessed
  but the least recently used of the others; \<^verbatim>\<open>get\<close> on the accessed key still returns
  its value, and all the other entries stay.
\<close>

theorem C2_recency_refresh:
  assumes "session c th tt cs = Inr (rs, s)" and "2 \<le> c" and "size_lru s = capacity s"
    and "map_of (cache s) k \<noteq> None" and "map_of (cache s) k' = None"
  shows "\<exists>x s1 s2 es.
           recency_entries s = Some es \<and> map_of es k = Some x \<and>
           get s k = Inr (x, s1) \<and> put s1 k' v' t = Inr (True, s2) \<and>
           evictions (metrics s2) = evictions (metrics s) + 1 \<and>
           map_of (cache s2) k \<noteq> None \<and> (\<exists>s3. get s2 k = Inr (x, s3)) \<and>
           AList.delete k es \<noteq> [] \<and>
           map_of (cache s2) (fst (last (AList.delete k es))) = None \<and>
           recency_entries s2 = Some ((k', v') # (k, x) # butlast (AList.delete k es))"
proof -
  from holds_session [OF assms(1)] obtain es where h: "holds s es" ..
  from session_Inr(3) [OF assms(1)] have cap: "capacity s = c" .
  have len: "length es = length (cache s)" using h by (rule holds_length)
  with assms(3) cap have lc: "int (length es) = c" by (simp add: size_lru_def)
  have d: "distinct (map fst es)" using h by (rule holds_distinct)
  from holds_absent [OF h, of k] assms(4) obtain x where x: "map_of es k = Some x" by auto
  from holds_absent [OF h, of k'] assms(5) have n': "map_of es k' = None" by simp
  from x n' have kk: "k \<noteq> k'" by auto
  let ?o = "AList.delete k es"
  from x have "(k, x) \<in> set es" by (rule map_of_SomeD)
  with d have lo: "Suc (length ?o) = length es" by (rule delete_length)
  with lc assms(2) have one: "?o \<noteq> []" by auto
  from holds_get [OF h, of k] x obtain s1 where
    g: "get s k = Inr (x, s1)" "holds s1 ((k, x) # ?o)" "capacity s1 = capacity s"
      "evictions (metrics s1) = evictions (metrics s)"
    by auto
  have n1: "map_of ((k, x) # ?o) k' = None" using n' kk by (simp add: delete_conv')
  have full: "capacity s1 \<le> int (length ((k, x) # ?o))" using g(3) cap lc lo by simp
  from holds_put [OF g(2), of k' v' t] n1 full obtain s2 where
    p: "put s1 k' v' t = Inr (True, s2)" "holds s2 ((k', v') # butlast ((k, x) # ?o))"
      "evictions (metrics s2) = evictions (metrics s1) + 1"
    by auto
  let ?es2 = "(k', v') # (k, x) # butlast ?o"
  from p(2) one have h2: "holds s2 ?es2" by simp
  have m2: "map_of ?es2 k = Some x" using kk by simp
  from holds_get [OF h2, of k] m2 have g2: "\<exists>s3. get s2 k = Inr (x, s3)" by auto
  from holds_absent [OF h2, of k] m2 have r2: "map_of (cache s2) k \<noteq> None" by simp
  let ?e = "fst (last ?o)"
  have do: "distinct (map fst ?o)" using d by (rule distinct_delete)
  have eo: "?e \<in> fst ` set ?o" using one by simp
  then have "?e \<in> fst ` set es" and ek: "?e \<noteq> k"
    by (auto simp: AList.delete_eq)
  with n' have ek': "?e \<noteq> k'" by (auto simp: map_of_eq_None_iff)
  have "?o = butlast ?o @ [last ?o]" using one by simp
  then have "map fst ?o = map fst (butlast ?o) @ [?e]" by (metis list.simps(8,9) map_append)
  with do have "?e \<notin> fst ` set (butlast ?o)" by (metis distinct_append distinct.simps(2) disjoint_iff list.set_intros(1) list.set_map)
  with ek ek' have "map_of ?es2 ?e = None" by (simp add: map_of_eq_None_iff)
  with holds_absent [OF h2, of ?e] have ev: "map_of (cache s2) ?e = None" by simp
  from holds_recency [OF h] x g(1) p(1) p(3) g(4) r2 g2 one ev holds_recency [OF h2]
  show ?thesis by (intro exI [of _ x] exI [of _ s1] exI [of _ s2] exI [of _ es]) simp
qed

theorem C2_recency_refresh_witness:
  "session 2 (0::nat) 0 [Put ''a'' (Some (1::nat)) 1, Put ''b'' (Some 2) 2] =
     Inr (fst (projr (session 2 (0::nat) 0 [Put ''a'' (Some (1::nat)) 1, Put ''b'' (Some 2) 2])),
          snd (projr (session 2 (0::nat) 0 [Put ''a'' (Some (1::nat)) 1, Put ''b'' (Some 2) 2]))) \<and>
   size_lru (snd (projr (session 2 (0::nat) 0 [Put ''a'' (Some (1::nat)) 1, Put ''b'' (Some 2) 2]))) =
     capacity (snd (projr (session 2 (0::nat) 0 [Put ''a'' (Some (1::nat)) 1, Put ''b'' (Some 2) 2]))) \<and>
   map_of (cache (snd (projr (session 2 (0::nat) 0
      [Put ''a'' (Some (1::nat)) 1, Put ''b'' (Some 2) 2])))) ''a'' \<noteq> None \<and>
   map_of (cache (snd (projr (session 2 (0::nat) 0
      [Put ''a'' (Some (1::nat)) 1, Put ''b'' (Some 2) 2])))) ''c'' = None \<and>
   (\<exists>s1 s2. get (snd (projr (session 2 (0::nat) 0
                [Put ''a'' (Some (1::nat)) 1, Put ''b'' (Some 2) 2]))) ''a'' = Inr (Some 1, s1) \<and>
            put s1 ''c'' (Some 3) 3 = Inr (True, s2) \<and>
            map_of (cache s2) ''a'' \<noteq> None \<and> map_of (cache s2) ''b'' = None \<and>
            (\<exists>s3. get s2 ''a'' = Inr (Some 1, s3)) \<and>
            recency_entries s2 = Some [(''c'', Some 3), (''a'', Some 1)])"
proof -
  let ?r = "session 2 (0::nat) 0 [Put ''a'' (Some (1::nat)) 1, Put ''b'' (Some 2) 2]"
  have e: "?r = Inr (fst (projr ?r), snd (projr ?r))" by (simp add: eval_defs)
  have f: "size_lru (snd (projr ?r)) = capacity (snd (projr ?r))" by (simp add: eval_defs)
  have a: "map_of (cache (snd (projr ?r))) ''a'' \<noteq> None" by (simp add: eval_defs)
  have c: "map_of (cache (snd (projr ?r))) ''c'' = None" by (simp add: eval_defs)
  have r: "recency_entries (snd (projr ?r)) = Some [(''b'', Some 2), (''a'', Some 1)]"
    by (simp add: eval_defs eval_nat_numeral)
  from C2_recency_refresh [OF e _ f a c, of "Some 3" 3] r e f a c show ?thesis
    by (auto simp: AList.delete_eq)
qed

text \<open>
  C4: in every state that a sequence of calls on a cache constructed with capacity
  \<open>c > 0\<close> reaches, \<open>0 \<le> size() \<le> c\<close>; \<^verbatim>\<open>size()\<close> is the number of keys of the table (its
  keys are distinct), which is the number of nodes of the recency list between the
  sentinels, and \<open>cache_size\<close> agrees with it. Inside \<^verbatim>\<open>put\<close>, after each statement of
  its body, the table has at most \<open>c\<close> keys as well: the eviction comes before the
  insertion. (The equality of table and list is one of the states between the calls;
  inside \<^verbatim>\<open>put\<close> the list and the table are updated one after the other.)
\<close>

theorem C4_size_bounds:
  assumes "session c th tt cs = Inr (rs, s)"
  shows "0 < c \<and> capacity s = c \<and> 0 \<le> size_lru s \<and> size_lru s \<le> c \<and>
         distinct (map fst (cache s)) \<and> size_lru s = int (card (fst ` set (cache s))) \<and>
         cache_size (metrics s) = size_lru s \<and>
         (\<exists>ns. recency s = Some ns \<and> size_lru s = int (length ns) \<and>
               head s \<notin> set ns \<and> tail s \<notin> set ns \<and> set ns = snd ` set (cache s)) \<and>
         (\<exists>b s' tr. put s k v t = Inr (b, s') \<and> put_trace s k v t = Inr tr \<and>
               tr \<noteq> [] \<and> last tr = s' \<and>
               (\<forall>x \<in> set tr. 0 \<le> size_lru x \<and> size_lru x \<le> c))"
proof -
  note c = session_Inr(1,3) [OF assms]
  from session_Inr(2) [OF assms] obtain ns where w: "wf s ns" ..
  then have sh: "shape s ns" and co: "counters s" by (simp_all add: wf_def)
  have len: "length (cache s) = length ns" using sh by (rule shape_length)
  from sh have le: "int (length ns) \<le> capacity s" and d: "distinct (map fst (cache s))"
    and ht: "head s \<notin> set ns" "tail s \<notin> set ns" and se: "set ns = snd ` set (cache s)"
    by (simp_all add: shape_def)
  have sz: "size_lru s \<le> c" using le len c(2) by (simp add: size_lru_def)
  have ca: "size_lru s = int (card (fst ` set (cache s)))"
    using distinct_card [OF d] by (simp add: size_lru_def)
  have cs: "cache_size (metrics s) = size_lru s" using co by (simp add: counters_def size_lru_def)
  have li: "\<exists>ns. recency s = Some ns \<and> size_lru s = int (length ns) \<and>
               head s \<notin> set ns \<and> tail s \<notin> set ns \<and> set ns = snd ` set (cache s)"
    using shape_recency [OF sh] len ht se by (simp add: size_lru_def)
  from exec_wf [OF w, of "Put k v t"] obtain b s' ns' where
    p: "put s k v t = Inr (b, s')" and w': "wf s' ns'" and c': "capacity s' = capacity s"
    by (auto simp: and_then_def split: sum.splits)
  from w' have "shape s' ns'" by (simp add: wf_def)
  from shape_length [OF this] \<open>shape s' ns'\<close> c' c(2) have sz': "int (length (cache s')) \<le> c"
    by (simp add: shape_def)
  from p obtain tr where tr: "put_trace s k v t = Inr tr" and la: "last tr = s'"
    by (auto simp: put_put_trace and_then_def split: sum.splits)
  have ne: "tr \<noteq> []"
    using tr by (auto simp: put_trace_def and_then_def Let_def split: option.splits sum.splits prod.splits)
  have bound: "0 \<le> size_lru x \<and> size_lru x \<le> c" if "x \<in> set tr" for x
    using put_trace_sizes [OF tr that] sz sz' la by (auto simp: size_lru_def)
  from c sz d ca cs li p tr ne la bound show ?thesis
    by (simp add: size_lru_def)
qed

theorem C4_size_bounds_witness:
  "session 1 (0::nat) 0 [Put ''a'' (Some (1::nat)) 1] =
     Inr (fst (projr (session 1 (0::nat) 0 [Put ''a'' (Some (1::nat)) 1])),
          snd (projr (session 1 (0::nat) 0 [Put ''a'' (Some (1::nat)) 1]))) \<and>
   size_lru (snd (projr (session 1 (0::nat) 0 [Put ''a'' (Some (1::nat)) 1]))) = 1 \<and>
   recency (snd (projr (session 1 (0::nat) 0 [Put ''a'' (Some (1::nat)) 1]))) = Some [2] \<and>
   (\<exists>tr. put_trace (snd (projr (session 1 (0::nat) 0 [Put ''a'' (Some (1::nat)) 1])))
             ''b'' (Some 2) 2 = Inr tr \<and>
          map size_lru tr = [1, 1, 0, 0, 1, 1, 1] \<and>
          (\<forall>x \<in> set tr. 0 \<le> size_lru x \<and> size_lru x \<le> 1))"
proof -
  let ?r = "session 1 (0::nat) 0 [Put ''a'' (Some (1::nat)) 1]"
  have e: "?r = Inr (fst (projr ?r), snd (projr ?r))" by (simp add: eval_defs)
  have z: "size_lru (snd (projr ?r)) = 1" by (simp add: eval_defs)
  have r: "recency (snd (projr ?r)) = Some [2]" by (simp add: eval_defs eval_nat_numeral)
  have t: "map_sum id (map size_lru) (put_trace (snd (projr ?r)) ''b'' (Some 2) 2)
             = Inr [1, 1, 0, 0, 1, 1, 1]"
    by (simp add: eval_defs put_trace_def evict_trace_def)
  from C4_size_bounds [OF e, of "''b''" "Some 2" 2] obtain tr where
    "put_trace (snd (projr ?r)) ''b'' (Some 2) 2 = Inr tr"
    "\<forall>x \<in> set tr. 0 \<le> size_lru x \<and> size_lru x \<le> 1"
    by blast
  with t e z r show ?thesis by auto
qed

text \<open>
  C9: two runs of the same sequence of calls on caches of the same capacity that differ
  only in the clock readings (those of the two sentinels and those of the calls of
  \<^verbatim>\<open>put\<close>) behave alike: they raise the same error or return the same results call by
  call, and they end in states that are equal up to the timestamps stored in the nodes,
  with the same table, the same counters and the same recency list. So the timestamps
  decide neither a result nor an eviction.
\<close>

theorem C9_timestamps_do_not_matter:
  fixes cs1 :: "('v, 't1) call list" and cs2 :: "('v, 't2) call list"
  assumes "map untime_call cs1 = map untime_call cs2"
  shows "map_sum id (map_prod id untime) (session c th1 tt1 cs1) =
         map_sum id (map_prod id untime) (session c th2 tt2 cs2) \<and>
         (\<forall>rs1 s1. session c th1 tt1 cs1 = Inr (rs1, s1) \<longrightarrow>
            (\<exists>s2. session c th2 tt2 cs2 = Inr (rs1, s2) \<and> untime s2 = untime s1 \<and>
                  cache s2 = cache s1 \<and> metrics s2 = metrics s1 \<and>
                  recency s2 = recency s1 \<and> recency_entries s2 = recency_entries s1 \<and>
                  size_lru s2 = size_lru s1))"
proof -
  have eq: "map_sum id (map_prod id untime) (session c th1 tt1 cs1) =
            map_sum id (map_prod id untime) (session c th2 tt2 cs2)"
    using untime_session [of c cs1 th1 tt1] untime_session [of c cs2 th2 tt2] assms
    by simp
  have "\<exists>s2. session c th2 tt2 cs2 = Inr (rs1, s2) \<and> untime s2 = untime s1 \<and>
                  cache s2 = cache s1 \<and> metrics s2 = metrics s1 \<and>
                  recency s2 = recency s1 \<and> recency_entries s2 = recency_entries s1 \<and>
                  size_lru s2 = size_lru s1"
    if r: "session c th1 tt1 cs1 = Inr (rs1, s1)" for rs1 s1
  proof -
    from eq r obtain s2 where s2: "session c th2 tt2 cs2 = Inr (rs1, s2)"
      and u: "untime s2 = untime s1"
      by (cases "session c th2 tt2 cs2") auto
    have "cache (untime s2) = cache (untime s1)" "metrics (untime s2) = metrics (untime s1)"
      "recency (untime s2) = recency (untime s1)"
      "recency_entries (untime s2) = recency_entries (untime s1)"
      by (simp_all only: u)
    then have "cache s2 = cache s1" "metrics s2 = metrics s1" "recency s2 = recency s1"
      "recency_entries s2 = recency_entries s1"
      by (simp_all only: untime_fields recency_untime recency_entries_untime)
    with s2 u show ?thesis by (simp add: size_lru_def)
  qed
  with eq show ?thesis by blast
qed

theorem C9_timestamps_do_not_matter_witness:
  "map untime_call [Put ''a'' (Some (1::nat)) (10::nat), Put ''b'' (Some 2) 20, Get ''a'',
                    Put ''c'' (Some 3) 30, Get ''b''] =
   map untime_call [Put ''a'' (Some (1::nat)) (9::nat), Put ''b'' (Some 2) 5, Get ''a'',
                    Put ''c'' (Some 3) 1, Get ''b''] \<and>
   map_sum id (map_prod id untime)
     (session 2 (0::nat) 0 [Put ''a'' (Some (1::nat)) 10, Put ''b'' (Some 2) 20, Get ''a'',
                            Put ''c'' (Some 3) 30, Get ''b'']) =
   map_sum id (map_prod id untime)
     (session 2 (7::nat) 3 [Put ''a'' (Some (1::nat)) 9, Put ''b'' (Some 2) 5, Get ''a'',
                            Put ''c'' (Some 3) 1, Get ''b'']) \<and>
   fst (projr (session 2 (7::nat) 3 [Put ''a'' (Some (1::nat)) 9, Put ''b'' (Some 2) 5, Get ''a'',
                            Put ''c'' (Some 3) 1, Get ''b''])) =
     [Flag True, Flag True, Value (Some 1), Flag True, Value None]"
proof -
  have h: "map untime_call [Put ''a'' (Some (1::nat)) (10::nat), Put ''b'' (Some 2) 20, Get ''a'',
                    Put ''c'' (Some 3) 30, Get ''b''] =
   map untime_call [Put ''a'' (Some (1::nat)) (9::nat), Put ''b'' (Some 2) 5, Get ''a'',
                    Put ''c'' (Some 3) 1, Get ''b'']"
    by simp
  have v: "fst (projr (session 2 (7::nat) 3 [Put ''a'' (Some (1::nat)) 9, Put ''b'' (Some 2) 5,
             Get ''a'', Put ''c'' (Some 3) 1, Get ''b''])) =
     [Flag True, Flag True, Value (Some 1), Flag True, Value None]"
    by (simp add: eval_defs)
  from C9_timestamps_do_not_matter [OF h, of 2 0 0 7 3] h v show ?thesis by blast
qed

end
